theory Spec2Isabelle
  imports Main "HOL-Library.Char_ord" "HOL-Library.List_Lexorder" "HOL-Library.Multiset"
begin

section \<open>JavaScript values\<close>

text \<open>
  The documents of idb.js are JSON data: what \<^verbatim>\<open>JSON.parse\<close> returns, and what callers pass in
  as items, filter values and expected values. A value is one of the JSON shapes or
  \<^verbatim>\<open>undefined\<close>. An object is the list of its own fields in insertion order.

  Boundaries of the model, each one a property of the JavaScript runtime and not of idb.js:
  \<^item> a number is an integer (the doubles that JSON data of this kind holds: ages, prices,
    counts); fractions, exponents, infinities and \<^verbatim>\<open>NaN\<close> as a stored value are left out,
    \<^verbatim>\<open>NaN\<close> as the result of a conversion is \<open>None\<close>;
  \<^item> a string is a list of 8-bit characters, compared by character code;
  \<^item> property lookup sees the own fields of an object, the indices and the length of an
    array or a string. The members of the built-in prototypes (\<^verbatim>\<open>toString\<close>,
    \<^verbatim>\<open>constructor\<close>, ...) are not values of the model: the path resolution of
    \<^verbatim>\<open>LSDBQuery\<close>, whose \<^verbatim>\<open>in\<close> operator finds them, says where it reaches one, and
    so does the assignment \<^verbatim>\<open>dump[b] = ...\<close> of \<^verbatim>\<open>LSDBUtil\<close>, which meets the accessor
    \<^verbatim>\<open>__proto__\<close>; elsewhere their names are neither field names nor path segments;
  \<^item> the fields of an object are kept in the order of insertion, also the integer-like
    names that JavaScript enumerates first;
  \<^item> two objects or arrays are never the same reference: stored values come fresh from
    \<^verbatim>\<open>JSON.parse\<close>, the values they are compared with come from the caller.
\<close>

datatype jsval =
    JUndefined
  | JNull
  | JBool bool
  | JNum int
  | JStr string
  | JArr "jsval list"
  | JObj "(string \<times> jsval) list"

type_synonym doc = "(string \<times> jsval) list"

text \<open>The exceptions: the DOM exceptions of IndexedDB by name, and \<^verbatim>\<open>new Error(message)\<close>.\<close>

datatype js_error =
    TypeError
  | DataError
  | ConstraintError
  | NotFoundError
  | InvalidAccessError
  | JsError string

text \<open>\<^verbatim>\<open>ToBoolean\<close>: what \<^verbatim>\<open>o && ...\<close>, \<^verbatim>\<open>o ? ... : ...\<close> and \<^verbatim>\<open>!x\<close> test.\<close>

fun truthy :: "jsval \<Rightarrow> bool" where
  "truthy JUndefined = False"
| "truthy JNull = False"
| "truthy (JBool b) = b"
| "truthy (JNum n) = (n \<noteq> 0)"
| "truthy (JStr s) = (s \<noteq> [])"
| "truthy (JArr xs) = True"
| "truthy (JObj kvs) = True"

subsection \<open>Strings and numbers\<close>

definition is_digit :: "char \<Rightarrow> bool" where
  "is_digit c = (of_char c \<ge> (48::nat) \<and> of_char c \<le> (57::nat))"

definition digit_val :: "char \<Rightarrow> nat" where
  "digit_val c = of_char c - 48"

definition decimal_val :: "string \<Rightarrow> nat" where
  "decimal_val s = foldl (\<lambda>acc c. 10 * acc + digit_val c) 0 s"

definition is_space :: "char \<Rightarrow> bool" where
  "is_space c = (of_char c \<in> {9, 10, 11, 12, 13, 32::nat})"

definition trim :: "string \<Rightarrow> string" where
  "trim s = rev (dropWhile is_space (rev (dropWhile is_space s)))"

definition unsigned_decimal :: "string \<Rightarrow> int option" where
  "unsigned_decimal s = (if s \<noteq> [] \<and> list_all is_digit s then Some (int (decimal_val s)) else None)"

text \<open>
  \<^verbatim>\<open>StringToNumber\<close>, for the integer literals: surrounding white space is dropped, the empty
  string is 0, a sign may precede the digits. Every other text is taken as \<^verbatim>\<open>NaN\<close>; the
  fractions, exponents, hexadecimal literals and \<^verbatim>\<open>Infinity\<close> that JavaScript also reads are
  outside the integers of this model.
\<close>

definition StringToNumber :: "string \<Rightarrow> int option" where
  "StringToNumber s =
     (let t = trim s in
      if t = [] then Some 0
      else if hd t = CHR ''-'' then map_option uminus (unsigned_decimal (tl t))
      else if hd t = CHR ''+'' then unsigned_decimal (tl t)
      else unsigned_decimal t)"

fun digit_chars :: "nat \<Rightarrow> nat \<Rightarrow> string" where
  "digit_chars 0 n = []"
| "digit_chars (Suc fuel) n =
     (if n < 10 then [char_of (48 + n)]
      else digit_chars fuel (n div 10) @ [char_of (48 + n mod 10)])"

text \<open>\<^verbatim>\<open>Number::toString\<close> of an integer. A number below \<open>10 ^ k\<close> has at most \<open>k\<close> digits, so
  \<open>Suc n\<close> rounds are always enough.\<close>

definition NumberToString :: "int \<Rightarrow> string" where
  "NumberToString i =
     (if i < 0 then CHR ''-'' # digit_chars (Suc (nat (- i))) (nat (- i))
      else digit_chars (Suc (nat i)) (nat i))"

text \<open>An array index is a canonical numeric string: digits with no leading zero.\<close>

definition array_index :: "string \<Rightarrow> nat option" where
  "array_index k =
     (if k \<noteq> [] \<and> list_all is_digit k \<and> (k = ''0'' \<or> hd k \<noteq> CHR ''0'')
      then Some (decimal_val k) else None)"

definition array_get :: "jsval list \<Rightarrow> string \<Rightarrow> jsval" where
  "array_get xs k =
     (if k = ''length'' then JNum (int (length xs))
      else case array_index k of
             Some i \<Rightarrow> (if i < length xs then xs ! i else JUndefined)
           | None \<Rightarrow> JUndefined)"

definition string_get :: "string \<Rightarrow> string \<Rightarrow> jsval" where
  "string_get s k =
     (if k = ''length'' then JNum (int (length s))
      else case array_index k of
             Some i \<Rightarrow> (if i < length s then JStr [s ! i] else JUndefined)
           | None \<Rightarrow> JUndefined)"

definition obj_get :: "doc \<Rightarrow> string \<Rightarrow> jsval" where
  "obj_get kvs k = (case map_of kvs k of Some v \<Rightarrow> v | None \<Rightarrow> JUndefined)"

text \<open>\<^verbatim>\<open>"a.b".split(".")\<close>: always at least one segment, empty segments kept.\<close>

fun split_dot :: "string \<Rightarrow> string list" where
  "split_dot [] = [[]]"
| "split_dot (c # cs) =
     (if c = CHR ''.'' then [] # split_dot cs
      else (c # hd (split_dot cs)) # tl (split_dot cs))"

subsection \<open>Conversions and comparison operators\<close>

fun join_comma :: "string list \<Rightarrow> string" where
  "join_comma [] = []"
| "join_comma [s] = s"
| "join_comma (s # t # ss) = s @ '','' @ join_comma (t # ss)"

text \<open>\<^verbatim>\<open>ToString\<close>; an array is its elements joined by commas (\<^verbatim>\<open>undefined\<close> and \<^verbatim>\<open>null\<close>
  elements as the empty string), a plain object is \<^verbatim>\<open>[object Object]\<close>.\<close>

fun ToString :: "jsval \<Rightarrow> string" where
  "ToString JUndefined = ''undefined''"
| "ToString JNull = ''null''"
| "ToString (JBool b) = (if b then ''true'' else ''false'')"
| "ToString (JNum n) = NumberToString n"
| "ToString (JStr s) = s"
| "ToString (JArr xs) =
     join_comma (map (\<lambda>x. if x = JUndefined \<or> x = JNull then [] else ToString x) xs)"
| "ToString (JObj kvs) = ''[object Object]''"

text \<open>\<^verbatim>\<open>ToPrimitive\<close>: objects and arrays become their string.\<close>

fun ToPrimitive :: "jsval \<Rightarrow> jsval" where
  "ToPrimitive (JArr xs) = JStr (ToString (JArr xs))"
| "ToPrimitive (JObj kvs) = JStr (ToString (JObj kvs))"
| "ToPrimitive v = v"

text \<open>\<^verbatim>\<open>ToNumber\<close> of a primitive; \<open>None\<close> is \<^verbatim>\<open>NaN\<close>.\<close>

fun ToNumber :: "jsval \<Rightarrow> int option" where
  "ToNumber JUndefined = None"
| "ToNumber JNull = Some 0"
| "ToNumber (JBool b) = Some (if b then 1 else 0)"
| "ToNumber (JNum n) = Some n"
| "ToNumber (JStr s) = StringToNumber s"
| "ToNumber v = ToNumber (ToPrimitive v)"

text \<open>\<^verbatim>\<open>===\<close>. Objects and arrays are compared by reference, which never agrees here.\<close>

fun strict_eq :: "jsval \<Rightarrow> jsval \<Rightarrow> bool" where
  "strict_eq JUndefined JUndefined = True"
| "strict_eq JNull JNull = True"
| "strict_eq (JBool a) (JBool b) = (a = b)"
| "strict_eq (JNum a) (JNum b) = (a = b)"
| "strict_eq (JStr a) (JStr b) = (a = b)"
| "strict_eq a b = False"

definition is_object :: "jsval \<Rightarrow> bool" where
  "is_object v = (case v of JArr xs \<Rightarrow> True | JObj kvs \<Rightarrow> True | _ \<Rightarrow> False)"

text \<open>\<^verbatim>\<open>==\<close> on primitives (\<^verbatim>\<open>IsLooselyEqual\<close> after \<^verbatim>\<open>ToPrimitive\<close>).\<close>

fun prim_loose_eq :: "jsval \<Rightarrow> jsval \<Rightarrow> bool" where
  "prim_loose_eq JUndefined b = (b = JUndefined \<or> b = JNull)"
| "prim_loose_eq JNull b = (b = JUndefined \<or> b = JNull)"
| "prim_loose_eq a JUndefined = False"
| "prim_loose_eq a JNull = False"
| "prim_loose_eq (JStr a) (JStr b) = (a = b)"
| "prim_loose_eq a b = (case (ToNumber a, ToNumber b) of (Some x, Some y) \<Rightarrow> x = y | _ \<Rightarrow> False)"

text \<open>\<^verbatim>\<open>==\<close>: two objects are equal only as the same reference (never, here); an object
  against \<^verbatim>\<open>undefined\<close> or \<^verbatim>\<open>null\<close> is unequal; an object against another primitive is
  converted first.\<close>

definition loose_eq :: "jsval \<Rightarrow> jsval \<Rightarrow> bool" where
  "loose_eq a b =
     (if is_object a \<and> is_object b then False
      else if is_object a then (b \<noteq> JUndefined \<and> b \<noteq> JNull \<and> prim_loose_eq (ToPrimitive a) b)
      else if is_object b then (a \<noteq> JUndefined \<and> a \<noteq> JNull \<and> prim_loose_eq a (ToPrimitive b))
      else prim_loose_eq a b)"

text \<open>\<^verbatim>\<open>IsLessThan\<close>: two strings by character codes, anything else as numbers; \<open>None\<close> is the
  \<^verbatim>\<open>undefined\<close> that a \<^verbatim>\<open>NaN\<close> operand gives.\<close>

definition js_less :: "jsval \<Rightarrow> jsval \<Rightarrow> bool option" where
  "js_less a b =
     (case (ToPrimitive a, ToPrimitive b) of
        (JStr x, JStr y) \<Rightarrow> Some (x < y)
      | (pa, pb) \<Rightarrow>
          (case (ToNumber pa, ToNumber pb) of
             (Some x, Some y) \<Rightarrow> Some (x < y)
           | _ \<Rightarrow> None))"

definition js_lt :: "jsval \<Rightarrow> jsval \<Rightarrow> bool" where
  "js_lt a b = (js_less a b = Some True)"

definition js_gt :: "jsval \<Rightarrow> jsval \<Rightarrow> bool" where
  "js_gt a b = (js_less b a = Some True)"

definition js_lte :: "jsval \<Rightarrow> jsval \<Rightarrow> bool" where
  "js_lte a b = (js_less b a = Some False)"

definition js_gte :: "jsval \<Rightarrow> jsval \<Rightarrow> bool" where
  "js_gte a b = (js_less a b = Some False)"

section \<open>LSDBQuery: the predicate evaluator\<close>

text \<open>
  The \<^verbatim>\<open>in\<close> operator of \<^verbatim>\<open>_getNestedValue\<close> also finds the names an object inherits from
  its prototype. A document comes from \<^verbatim>\<open>JSON.parse\<close>: its objects inherit from
  \<^verbatim>\<open>Object.prototype\<close>, its arrays from \<^verbatim>\<open>Array.prototype\<close> and, through it, from
  \<^verbatim>\<open>Object.prototype\<close>. These are the names that ECMAScript defines there.
\<close>

definition object_prototype_names :: "string list" where
  "object_prototype_names =
     [''constructor'', ''hasOwnProperty'', ''isPrototypeOf'', ''propertyIsEnumerable'',
      ''toLocaleString'', ''toString'', ''valueOf'', ''__proto__'', ''__defineGetter__'',
      ''__defineSetter__'', ''__lookupGetter__'', ''__lookupSetter__'']"

definition array_prototype_names :: "string list" where
  "array_prototype_names =
     [''at'', ''concat'', ''copyWithin'', ''entries'', ''every'', ''fill'', ''filter'', ''find'',
      ''findIndex'', ''findLast'', ''findLastIndex'', ''flat'', ''flatMap'', ''forEach'',
      ''includes'', ''indexOf'', ''join'', ''keys'', ''lastIndexOf'', ''map'', ''pop'', ''push'',
      ''reduce'', ''reduceRight'', ''reverse'', ''shift'', ''slice'', ''some'', ''sort'', ''splice'',
      ''toReversed'', ''toSorted'', ''toSpliced'', ''unshift'', ''values'', ''with'']
     @ object_prototype_names"

text \<open>
  How an evaluation ends when it yields no value: an exception is thrown, or the path has
  reached a member of a built-in prototype (a function such as \<^verbatim>\<open>toString\<close>, the
  prototype object itself). What the code computes from such a member is the business of
  the runtime's library; the model says \<open>Builtin\<close> and nothing more.
\<close>

datatype abrupt = Thrown js_error | Builtin

text \<open>
  One step of the \<^verbatim>\<open>reduce\<close> in \<^verbatim>\<open>LSDBQuery._getNestedValue\<close>:
  \<^verbatim>\<open>(o && k in o) ? o[k] : undefined\<close>. A falsy \<open>o\<close> gives \<^verbatim>\<open>undefined\<close>. On an object
  or an array, \<^verbatim>\<open>k in o\<close> holds for an own field (an index or \<^verbatim>\<open>length\<close> of an array) and for
  an inherited name; an own field hides an inherited one. On any other (truthy) value the
  \<^verbatim>\<open>in\<close> operator throws a \<^verbatim>\<open>TypeError\<close>.
\<close>

fun nested_step :: "jsval \<Rightarrow> string \<Rightarrow> abrupt + jsval" where
  "nested_step (JObj kvs) k =
     (case map_of kvs k of
        Some v \<Rightarrow> Inr v
      | None \<Rightarrow> if k \<in> set object_prototype_names then Inl Builtin else Inr JUndefined)"
| "nested_step (JArr xs) k =
     (if k \<in> set array_prototype_names then Inl Builtin else Inr (array_get xs k))"
| "nested_step v k = (if truthy v then Inl (Thrown TypeError) else Inr JUndefined)"

fun reduce_path :: "jsval \<Rightarrow> string list \<Rightarrow> abrupt + jsval" where
  "reduce_path v [] = Inr v"
| "reduce_path v (k # ks) =
     (case nested_step v k of Inl e \<Rightarrow> Inl e | Inr w \<Rightarrow> reduce_path w ks)"

definition getNestedValue :: "jsval \<Rightarrow> string \<Rightarrow> abrupt + jsval" where
  "getNestedValue obj prop = reduce_path obj (split_dot prop)"

definition compare :: "jsval \<Rightarrow> string \<Rightarrow> jsval \<Rightarrow> bool" where
  "compare val op expected =
     (if op = ''eq'' then loose_eq val expected
      else if op = ''neq'' then \<not> loose_eq val expected
      else if op = ''lt'' then js_lt val expected
      else if op = ''lte'' then js_lte val expected
      else if op = ''gt'' then js_gt val expected
      else if op = ''gte'' then js_gte val expected
      else loose_eq val expected)"


section \<open>LSDB: buckets in localStorage\<close>

text \<open>
  \<^verbatim>\<open>JSON.parse(JSON.stringify(v))\<close>: a field whose value is \<^verbatim>\<open>undefined\<close> is dropped, an
  \<^verbatim>\<open>undefined\<close> array element becomes \<^verbatim>\<open>null\<close>.
\<close>

fun json_norm :: "jsval \<Rightarrow> jsval" where
  "json_norm (JArr xs) = JArr (map (\<lambda>x. if x = JUndefined then JNull else json_norm x) xs)"
| "json_norm (JObj kvs) =
     JObj (map (\<lambda>p. (fst p, json_norm (snd p))) (filter (\<lambda>p. snd p \<noteq> JUndefined) kvs))"
| "json_norm v = v"

definition json_doc :: "doc \<Rightarrow> doc" where
  "json_doc d = map (\<lambda>p. (fst p, json_norm (snd p))) (filter (\<lambda>p. snd p \<noteq> JUndefined) d)"

text \<open>\<^verbatim>\<open>o[k] = v\<close> on an object: an existing field keeps its place, a new one goes last.\<close>

fun obj_set :: "doc \<Rightarrow> string \<Rightarrow> jsval \<Rightarrow> doc" where
  "obj_set [] k v = [(k, v)]"
| "obj_set (p # ps) k v = (if fst p = k then (k, v) # ps else p # obj_set ps k v)"

text \<open>The own enumerable fields that \<^verbatim>\<open>{...v}\<close> copies: the fields of an object, the indexed
  elements of an array, the indexed characters of a string, nothing of any other value.\<close>

fun own_entries :: "jsval \<Rightarrow> doc" where
  "own_entries (JObj kvs) = kvs"
| "own_entries (JArr xs) = map (\<lambda>i. (NumberToString (int i), xs ! i)) [0..<length xs]"
| "own_entries (JStr s) = map (\<lambda>i. (NumberToString (int i), JStr [s ! i])) [0..<length s]"
| "own_entries v = []"

text \<open>\<^verbatim>\<open>{ ...base, ...v }\<close> where \<open>base\<close> is the object built so far.\<close>

definition spread :: "doc \<Rightarrow> jsval \<Rightarrow> doc" where
  "spread base v = foldl (\<lambda>acc p. obj_set acc (fst p) (snd p)) base (own_entries v)"

text \<open>
  The state: the browser's \<^verbatim>\<open>localStorage\<close>, keys in insertion order, and the number of calls
  of \<^verbatim>\<open>crypto.randomUUID()\<close> made so far. Every text this code writes is
  \<^verbatim>\<open>JSON.stringify\<close> of an array of objects, so a key holds that array. The UUID generator is
  the function \<open>rnd\<close>: its \<open>n\<close>-th call returns \<open>rnd n\<close>.
\<close>

record env =
  localStorage :: "(string \<times> doc list) list"
  uuid_calls :: nat

fun setItem :: "(string \<times> 'v) list \<Rightarrow> string \<Rightarrow> 'v \<Rightarrow> (string \<times> 'v) list" where
  "setItem [] k v = [(k, v)]"
| "setItem (p # ps) k v = (if fst p = k then (k, v) # ps else p # setItem ps k v)"

definition getItem :: "(string \<times> 'v) list \<Rightarrow> string \<Rightarrow> 'v option" where
  "getItem ls k = map_of ls k"

definition removeItem :: "(string \<times> 'v) list \<Rightarrow> string \<Rightarrow> (string \<times> 'v) list" where
  "removeItem ls k = filter (\<lambda>p. fst p \<noteq> k) ls"

definition startsWith :: "string \<Rightarrow> string \<Rightarrow> bool" where
  "startsWith s p = (take (length p) s = p)"

text \<open>\<^verbatim>\<open>s.replace(p, r)\<close> with a string pattern: the first occurrence only.\<close>

fun replace_first :: "string \<Rightarrow> string \<Rightarrow> string \<Rightarrow> string" where
  "replace_first p r [] = (if p = [] then r else [])"
| "replace_first p r (c # cs) =
     (if startsWith (c # cs) p then r @ drop (length p) (c # cs)
      else c # replace_first p r cs)"

text \<open>An \<^verbatim>\<open>LSDB\<close> instance is its prefix \<open>pre\<close>.\<close>

definition key :: "string \<Rightarrow> string \<Rightarrow> string" where
  "key pre bucket = pre @ bucket"

definition load :: "string \<Rightarrow> string \<Rightarrow> env \<Rightarrow> doc list" where
  "load pre bucket st =
     (case getItem (localStorage st) (key pre bucket) of Some data \<Rightarrow> data | None \<Rightarrow> [])"

definition save :: "string \<Rightarrow> string \<Rightarrow> doc list \<Rightarrow> env \<Rightarrow> env" where
  "save pre bucket data st =
     st\<lparr>localStorage := setItem (localStorage st) (key pre bucket) (map json_doc data)\<rparr>"

definition ensure :: "string \<Rightarrow> string \<Rightarrow> env \<Rightarrow> env" where
  "ensure pre bucket st =
     (case getItem (localStorage st) (key pre bucket) of
        None \<Rightarrow> st\<lparr>localStorage := setItem (localStorage st) (key pre bucket) []\<rparr>
      | Some data \<Rightarrow> st)"

definition listBuckets :: "string \<Rightarrow> env \<Rightarrow> string list" where
  "listBuckets pre st =
     map (\<lambda>k. replace_first pre [] k) (filter (\<lambda>k. startsWith k pre) (map fst (localStorage st)))"

definition createBucket :: "string \<Rightarrow> string \<Rightarrow> env \<Rightarrow> env" where
  "createBucket pre bucket st = ensure pre bucket st"

definition deleteBucket :: "string \<Rightarrow> string \<Rightarrow> env \<Rightarrow> env" where
  "deleteBucket pre bucket st =
     st\<lparr>localStorage := removeItem (localStorage st) (key pre bucket)\<rparr>"

subsection \<open>The bucket accessor\<close>

text \<open>\<^verbatim>\<open>db.bucket(name)\<close> runs \<^verbatim>\<open>_ensure\<close> and returns the five operations; each operation
  below is the accessor followed by the operation.\<close>

definition bucket_accessor :: "string \<Rightarrow> string \<Rightarrow> env \<Rightarrow> env" where
  "bucket_accessor pre bucketName st = ensure pre bucketName st"

definition lsdb_insert :: "(nat \<Rightarrow> string) \<Rightarrow> string \<Rightarrow> string \<Rightarrow> jsval \<Rightarrow> env \<Rightarrow> doc \<times> env" where
  "lsdb_insert rnd pre bucketName item st =
     (let st1 = bucket_accessor pre bucketName st;
          list = load pre bucketName st1;
          newItem = spread [(''id'', JStr (rnd (uuid_calls st1)))] item;
          st2 = st1\<lparr>uuid_calls := Suc (uuid_calls st1)\<rparr>
      in (newItem, save pre bucketName (list @ [newItem]) st2))"

definition lsdb_all :: "string \<Rightarrow> string \<Rightarrow> env \<Rightarrow> doc list \<times> env" where
  "lsdb_all pre bucketName st =
     (let st1 = bucket_accessor pre bucketName st in (load pre bucketName st1, st1))"

definition filterBy :: "string \<Rightarrow> string \<Rightarrow> doc \<Rightarrow> env \<Rightarrow> doc list \<times> env" where
  "filterBy pre bucketName props st =
     (let st1 = bucket_accessor pre bucketName st;
          list = load pre bucketName st1
      in (filter (\<lambda>item. list_all (\<lambda>p. strict_eq (obj_get item (fst p)) (snd p)) props) list, st1))"

text \<open>\<^verbatim>\<open>list.findIndex(x => x.id === id)\<close>; \<open>None\<close> is the -1 of the source.\<close>

fun findIndex :: "('a \<Rightarrow> bool) \<Rightarrow> 'a list \<Rightarrow> nat option" where
  "findIndex P [] = None"
| "findIndex P (x # xs) = (if P x then Some 0 else map_option Suc (findIndex P xs))"

text \<open>\<^verbatim>\<open>update\<close> returns \<^verbatim>\<open>false\<close> (here \<open>None\<close>) when no item has the id, else the merged
  item.\<close>

definition lsdb_update :: "string \<Rightarrow> string \<Rightarrow> jsval \<Rightarrow> jsval \<Rightarrow> env \<Rightarrow> doc option \<times> env" where
  "lsdb_update pre bucketName ident newData st =
     (let st1 = bucket_accessor pre bucketName st;
          list = load pre bucketName st1
      in case findIndex (\<lambda>x. strict_eq (obj_get x ''id'') ident) list of
           None \<Rightarrow> (None, st1)
         | Some i \<Rightarrow>
             (let merged = spread (list ! i) newData
              in (Some merged, save pre bucketName (list[i := merged]) st1)))"

definition lsdb_delete :: "string \<Rightarrow> string \<Rightarrow> jsval \<Rightarrow> env \<Rightarrow> bool \<times> env" where
  "lsdb_delete pre bucketName ident st =
     (let st1 = bucket_accessor pre bucketName st;
          list = load pre bucketName st1;
          newList = filter (\<lambda>x. \<not> strict_eq (obj_get x ''id'') ident) list
      in (True, save pre bucketName newList st1))"

subsection \<open>Sequences of operations\<close>

text \<open>The lifetime of a store: any sequence of the operations of \<^verbatim>\<open>LSDB\<close> on its buckets.\<close>

datatype lsdb_op =
    OpInsert string jsval
  | OpUpdate string jsval jsval
  | OpDelete string jsval
  | OpAll string
  | OpFilterBy string doc
  | OpCreateBucket string
  | OpDeleteBucket string

fun apply_op :: "(nat \<Rightarrow> string) \<Rightarrow> string \<Rightarrow> env \<Rightarrow> lsdb_op \<Rightarrow> env" where
  "apply_op rnd pre st (OpInsert b item) = snd (lsdb_insert rnd pre b item st)"
| "apply_op rnd pre st (OpUpdate b ident newData) = snd (lsdb_update pre b ident newData st)"
| "apply_op rnd pre st (OpDelete b ident) = snd (lsdb_delete pre b ident st)"
| "apply_op rnd pre st (OpAll b) = snd (lsdb_all pre b st)"
| "apply_op rnd pre st (OpFilterBy b props) = snd (filterBy pre b props st)"
| "apply_op rnd pre st (OpCreateBucket b) = createBucket pre b st"
| "apply_op rnd pre st (OpDeleteBucket b) = deleteBucket pre b st"

definition run_ops :: "(nat \<Rightarrow> string) \<Rightarrow> string \<Rightarrow> env \<Rightarrow> lsdb_op list \<Rightarrow> env" where
  "run_ops rnd pre st ops = foldl (apply_op rnd pre) st ops"

section \<open>LSDBUtil: dump and import\<close>

text \<open>\<^verbatim>\<open>LSDBUtil.lsdbInstance\<close> is the \<^verbatim>\<open>LSDB\<close> with prefix \<^verbatim>\<open>APP_\<close>.\<close>

definition lsdbInstance :: string where
  "lsdbInstance = ''APP_''"

text \<open>
  \<^verbatim>\<open>dump\<close> returns \<^verbatim>\<open>JSON.stringify\<close> of an object with one array per bucket, and \<^verbatim>\<open>import\<close>
  starts with \<^verbatim>\<open>JSON.parse\<close>. The text is modelled by the data it denotes: a snapshot is
  the list of the buckets with their items, and a text that does not parse is \<open>None\<close>. An
  empty bucket name is falsy and dumps every bucket, like no name.
\<close>

type_synonym snapshot = "(string \<times> jsval list) list"

text \<open>
  \<^verbatim>\<open>dump[b] = v\<close> on the plain object \<^verbatim>\<open>dump\<close> adds or replaces the field \<open>b\<close>, for every name
  but one: \<^verbatim>\<open>__proto__\<close> is the accessor of \<^verbatim>\<open>Object.prototype\<close>, so the assignment makes the
  array the prototype of \<^verbatim>\<open>dump\<close> and adds no field, and \<^verbatim>\<open>JSON.stringify\<close>, which writes own
  fields only, leaves that bucket out.
\<close>

definition assign_field :: "snapshot \<Rightarrow> string \<Rightarrow> jsval list \<Rightarrow> snapshot" where
  "assign_field dump b v = (if b = ''__proto__'' then dump else setItem dump b v)"

definition lsdb_dump :: "string option \<Rightarrow> env \<Rightarrow> snapshot \<times> env" where
  "lsdb_dump bucketName st =
     (let buckets = (case bucketName of
                       None \<Rightarrow> listBuckets lsdbInstance st
                     | Some b \<Rightarrow> if b = [] then listBuckets lsdbInstance st else [b])
      in foldl (\<lambda>acc b. case lsdb_all lsdbInstance b (snd acc) of
                          (data, st') \<Rightarrow>
                            (assign_field (fst acc) b (map (\<lambda>d. json_norm (JObj d)) data), st'))
           ([], st) buckets)"

definition import_bucket :: "(nat \<Rightarrow> string) \<Rightarrow> bool \<Rightarrow> env \<Rightarrow> string \<times> jsval list \<Rightarrow> env" where
  "import_bucket rnd overwrite st entry =
     (let bucketName = fst entry;
          st1 = (if overwrite
                 then createBucket lsdbInstance bucketName (deleteBucket lsdbInstance bucketName st)
                 else if bucketName \<notin> set (listBuckets lsdbInstance st)
                 then createBucket lsdbInstance bucketName st
                 else st)
      in foldl (\<lambda>s item. snd (lsdb_insert rnd lsdbInstance bucketName item s)) st1 (snd entry))"

definition lsdb_import :: "(nat \<Rightarrow> string) \<Rightarrow> snapshot option \<Rightarrow> bool \<Rightarrow> env \<Rightarrow> env" where
  "lsdb_import rnd parsed overwrite st =
     (case parsed of
        None \<Rightarrow> st
      | Some data \<Rightarrow> foldl (import_bucket rnd overwrite) st data)"

text \<open>
  A store whose documents all carry an id. The keys of \<^verbatim>\<open>localStorage\<close> are distinct and
  every document of a bucket is an object with distinct field names that holds JSON data:
  so much is true of whatever \<^verbatim>\<open>JSON.parse\<close> reads from \<^verbatim>\<open>localStorage\<close>. That every document
  has a field \<^verbatim>\<open>id\<close> is a condition on the store: \<^verbatim>\<open>insert\<close> spreads the item over the new id,
  so an item whose own \<^verbatim>\<open>id\<close> is \<^verbatim>\<open>undefined\<close> is stored without one. Two documents have the
  same fields when every field name has the same value in both.
\<close>

definition wf_doc :: "doc \<Rightarrow> bool" where
  "wf_doc d = (distinct (map fst d) \<and> json_doc d = d \<and> map_of d ''id'' \<noteq> None)"

definition wf_store :: "env \<Rightarrow> bool" where
  "wf_store st =
     (distinct (map fst (localStorage st)) \<and>
      (\<forall>b\<in>set (listBuckets lsdbInstance st). list_all wf_doc (load lsdbInstance b st)))"

definition same_fields :: "doc \<Rightarrow> doc \<Rightarrow> bool" where
  "same_fields d d' = (map_of d = map_of d')"

text \<open>What \<^verbatim>\<open>import\<close> stores for an item: the item spread over a fresh id, as JSON. A document
  is laid out by \<^verbatim>\<open>insert\<close> with its id as the first field.\<close>

definition reimported :: "doc \<Rightarrow> jsval \<Rightarrow> bool" where
  "reimported d' item = (\<exists>u. d' = json_doc (spread [(''id'', JStr u)] item))"

definition id_first :: "doc \<Rightarrow> bool" where
  "id_first d = (case d of [] \<Rightarrow> False | p # ps \<Rightarrow> fst p = ''id'')"

section \<open>IDb: object stores in IndexedDB\<close>

text \<open>
  \<^verbatim>\<open>IDb.init\<close> creates every object store with \<^verbatim>\<open>{ keyPath: "id", autoIncrement: true }\<close>: the
  key of a record is its \<^verbatim>\<open>id\<close> field, and a record stored without one receives the current
  number of the store's key generator. A store keeps its records in key order. Valid keys
  are numbers, strings and arrays of valid keys (dates and binary keys are no JSON data);
  numbers come before strings, strings before arrays.
\<close>

fun valid_key :: "jsval \<Rightarrow> bool" where
  "valid_key (JNum n) = True"
| "valid_key (JStr s) = True"
| "valid_key (JArr xs) = list_all valid_key xs"
| "valid_key v = False"

fun key_less :: "jsval \<Rightarrow> jsval \<Rightarrow> bool" where
  "key_less (JNum a) (JNum b) = (a < b)"
| "key_less (JNum a) (JStr b) = True"
| "key_less (JNum a) (JArr ys) = True"
| "key_less (JStr a) (JStr b) = (a < b)"
| "key_less (JStr a) (JArr ys) = True"
| "key_less (JArr []) (JArr (y # ys)) = True"
| "key_less (JArr (x # xs)) (JArr (y # ys)) =
     (key_less x y \<or> (x = y \<and> key_less (JArr xs) (JArr ys)))"
| "key_less a b = False"

record object_store =
  records :: "doc list"
  current_number :: nat

type_synonym idb = "(string \<times> object_store) list"

definition contains :: "idb \<Rightarrow> string \<Rightarrow> bool" where
  "contains db bucket = (map_of db bucket \<noteq> None)"

text \<open>Evaluating the key path \<^verbatim>\<open>id\<close> when \<^verbatim>\<open>add\<close> or \<^verbatim>\<open>put\<close> is called: no key when the field
  is absent or \<^verbatim>\<open>undefined\<close>, a \<^verbatim>\<open>DataError\<close> thrown at once when it is no valid key.\<close>

definition extract_key :: "doc \<Rightarrow> js_error + jsval option" where
  "extract_key data =
     (let v = obj_get data ''id''
      in if v = JUndefined then Inr None
         else if valid_key v then Inr (Some v)
         else Inl DataError)"

definition has_key :: "jsval \<Rightarrow> doc list \<Rightarrow> bool" where
  "has_key k rs = list_ex (\<lambda>r. obj_get r ''id'' = k) rs"

fun put_record :: "jsval \<Rightarrow> doc \<Rightarrow> doc list \<Rightarrow> doc list" where
  "put_record k r [] = [r]"
| "put_record k r (x # xs) =
     (if obj_get x ''id'' = k then r # xs
      else if key_less k (obj_get x ''id'') then r # x # xs
      else x # put_record k r xs)"

text \<open>
  Storing a record when the request runs. Without a key the generator supplies one and it
  is written into the record; a numeric key at or above the generator's number moves the
  generator past it. With \<open>no_overwrite\<close> (\<^verbatim>\<open>add\<close>) an existing key is a
  \<^verbatim>\<open>ConstraintError\<close>; without it (\<^verbatim>\<open>put\<close>) the record with that key is replaced.
\<close>

definition store_record :: "bool \<Rightarrow> doc \<Rightarrow> object_store \<Rightarrow> js_error + (object_store \<times> jsval)" where
  "store_record no_overwrite data os =
     (let v = obj_get data ''id'';
          k = (if v = JUndefined then JNum (int (current_number os)) else v);
          r = (if v = JUndefined then obj_set data ''id'' k else data);
          n = (case k of
                 JNum i \<Rightarrow> if int (current_number os) \<le> i then nat i + 1 else current_number os
               | _ \<Rightarrow> current_number os)
      in if no_overwrite \<and> has_key k (records os) then Inl ConstraintError
         else Inr (\<lparr>records = put_record k r (records os), current_number = n\<rparr>, k))"

definition delete_record :: "jsval \<Rightarrow> object_store \<Rightarrow> object_store" where
  "delete_record k os = os\<lparr>records := filter (\<lambda>r. obj_get r ''id'' \<noteq> k) (records os)\<rparr>"

definition bucket_missing :: "string \<Rightarrow> js_error" where
  "bucket_missing bucket =
     JsError (''Bucket '' @ [CHR 0x27] @ bucket @ [CHR 0x27] @ '' does not exist'')"

definition getStore :: "idb \<Rightarrow> string \<Rightarrow> js_error + object_store" where
  "getStore db bucket =
     (case map_of db bucket of None \<Rightarrow> Inl (bucket_missing bucket) | Some os \<Rightarrow> Inr os)"

definition IDb_getAll :: "idb \<Rightarrow> string \<Rightarrow> js_error + doc list" where
  "IDb_getAll db bucket =
     (case getStore db bucket of Inl e \<Rightarrow> Inl e | Inr os \<Rightarrow> Inr (records os))"

text \<open>\<^verbatim>\<open>IDb.update\<close> is \<^verbatim>\<open>store.put(data)\<close> in a transaction of its own; the promise resolves
  with the key.\<close>

definition IDb_update :: "idb \<Rightarrow> string \<Rightarrow> doc \<Rightarrow> (js_error + jsval) \<times> idb" where
  "IDb_update db bucket data =
     (case getStore db bucket of
        Inl e \<Rightarrow> (Inl e, db)
      | Inr os \<Rightarrow>
          (case extract_key data of
             Inl e \<Rightarrow> (Inl e, db)
           | Inr key_opt \<Rightarrow>
               (case store_record False data os of
                  Inl e \<Rightarrow> (Inl e, db)
                | Inr (os', k) \<Rightarrow> (Inr k, setItem db bucket os'))))"

text \<open>One step of the \<^verbatim>\<open>reduce\<close> in \<^verbatim>\<open>IDb.filter\<close>: \<^verbatim>\<open>o ? o[k] : undefined\<close>. Numbers and
  booleans have no fields of their own.\<close>

fun filter_step :: "jsval \<Rightarrow> string \<Rightarrow> jsval" where
  "filter_step (JObj kvs) k = obj_get kvs k"
| "filter_step (JArr xs) k = array_get xs k"
| "filter_step (JStr s) k = (if s = [] then JUndefined else string_get s k)"
| "filter_step v k = JUndefined"

definition resolve :: "jsval \<Rightarrow> string \<Rightarrow> jsval" where
  "resolve item k = foldl filter_step item (split_dot k)"

definition IDb_filter :: "idb \<Rightarrow> string \<Rightarrow> doc \<Rightarrow> js_error + doc list" where
  "IDb_filter db bucket filterObj =
     (case IDb_getAll db bucket of
        Inl e \<Rightarrow> Inl e
      | Inr all \<Rightarrow>
          Inr (filter (\<lambda>item. list_all (\<lambda>k. loose_eq (resolve (JObj item) k) (obj_get filterObj k))
                                 (map fst filterObj)) all))"

subsection \<open>Transactions\<close>

text \<open>
  The callback of \<^verbatim>\<open>IDb.transaction\<close> receives the object stores of the named buckets and
  runs to its end at once. It is modelled by what it does with them: the calls it makes,
  in order, and a \<^verbatim>\<open>throw\<close>. A call on a store that was not named finds \<^verbatim>\<open>undefined\<close> and
  throws a \<^verbatim>\<open>TypeError\<close>. Each call places a request; the requests run after the callback
  has returned.
\<close>

datatype tx_call =
    Add string doc
  | Put string doc
  | Delete string jsval
  | Throw string

datatype request =
    AddRequest string doc
  | PutRequest string doc
  | DeleteRequest string jsval

fun run_callback :: "string list \<Rightarrow> tx_call list \<Rightarrow> request list \<times> js_error option" where
  "run_callback buckets [] = ([], None)"
| "run_callback buckets (Throw msg # cs) = ([], Some (JsError msg))"
| "run_callback buckets (Add b data # cs) =
     (if b \<notin> set buckets then ([], Some TypeError)
      else case extract_key data of
             Inl e \<Rightarrow> ([], Some e)
           | Inr key_opt \<Rightarrow>
               (case run_callback buckets cs of (rs, thrown) \<Rightarrow> (AddRequest b data # rs, thrown)))"
| "run_callback buckets (Put b data # cs) =
     (if b \<notin> set buckets then ([], Some TypeError)
      else case extract_key data of
             Inl e \<Rightarrow> ([], Some e)
           | Inr key_opt \<Rightarrow>
               (case run_callback buckets cs of (rs, thrown) \<Rightarrow> (PutRequest b data # rs, thrown)))"
| "run_callback buckets (Delete b k # cs) =
     (if b \<notin> set buckets then ([], Some TypeError)
      else if \<not> valid_key k then ([], Some DataError)
      else case run_callback buckets cs of (rs, thrown) \<Rightarrow> (DeleteRequest b k # rs, thrown))"

definition on_store :: "idb \<Rightarrow> string \<Rightarrow> (object_store \<Rightarrow> js_error + object_store) \<Rightarrow> js_error + idb" where
  "on_store db b f =
     (case map_of db b of
        None \<Rightarrow> Inl NotFoundError
      | Some os \<Rightarrow> (case f os of Inl e \<Rightarrow> Inl e | Inr os' \<Rightarrow> Inr (setItem db b os')))"

fun run_request :: "idb \<Rightarrow> request \<Rightarrow> js_error + idb" where
  "run_request db (AddRequest b data) = on_store db b (\<lambda>os. map_sum id fst (store_record True data os))"
| "run_request db (PutRequest b data) = on_store db b (\<lambda>os. map_sum id fst (store_record False data os))"
| "run_request db (DeleteRequest b k) = on_store db b (\<lambda>os. Inr (delete_record k os))"

fun run_requests :: "idb \<Rightarrow> request list \<Rightarrow> js_error + idb" where
  "run_requests db [] = Inr db"
| "run_requests db (r # rs) =
     (case run_request db r of Inl e \<Rightarrow> Inl e | Inr db' \<Rightarrow> run_requests db' rs)"

text \<open>
  \<^verbatim>\<open>IDb.transaction\<close>. Opening the transaction throws for an empty list of buckets and for a
  bucket that does not exist, which rejects the promise. Otherwise the callback runs inside
  \<^verbatim>\<open>try\<close>; the \<^verbatim>\<open>catch\<close> block rejects the promise and does nothing else, so the requests
  placed before the exception stay in the transaction. They run in order: when one fails,
  the transaction aborts, nothing is written and \<^verbatim>\<open>tx.onerror\<close> rejects the promise; when
  all succeed the transaction commits and \<^verbatim>\<open>tx.oncomplete\<close> resolves it. A promise keeps
  the first outcome it was given.
\<close>

definition IDb_transaction :: "idb \<Rightarrow> string list \<Rightarrow> tx_call list \<Rightarrow> (js_error + bool) \<times> idb" where
  "IDb_transaction db buckets callback =
     (if buckets = [] then (Inl InvalidAccessError, db)
      else if \<not> list_all (contains db) buckets then (Inl NotFoundError, db)
      else case run_callback buckets callback of
             (requests, thrown) \<Rightarrow>
               (case run_requests db requests of
                  Inl e \<Rightarrow> (Inl (case thrown of Some t \<Rightarrow> t | None \<Rightarrow> e), db)
                | Inr db' \<Rightarrow> (case thrown of Some t \<Rightarrow> Inl t | None \<Rightarrow> Inr True, db')))"

text \<open>The database of \<^verbatim>\<open>IDbUtilExample\<close> after \<^verbatim>\<open>init\<close>, and its transaction with a
  \<^verbatim>\<open>throw\<close> added after the two inserts.\<close>

definition empty_store :: object_store where
  "empty_store = \<lparr>records = [], current_number = 1\<rparr>"

definition db_a :: idb where
  "db_a = [(''department'', empty_store), (''employee'', empty_store), (''project'', empty_store)]"

definition charlie :: doc where
  "charlie = [(''name'', JStr ''Charlie''), (''group'', JStr ''IT''),
              (''address'', JObj [(''city'', JStr ''London'')])]"

definition project_x :: doc where
  "project_x = [(''name'', JStr ''Project X'')]"

definition throwing_callback :: "tx_call list" where
  "throwing_callback = [Add ''employee'' charlie, Add ''project'' project_x, Throw ''boom'']"

definition zed :: doc where
  "zed = [(''id'', JNum 7), (''name'', JStr ''Zed''), (''age'', JNum 3)]"

section \<open>LSDBQuery\<close>

record predicate =
  prop' :: string
  op :: string
  val :: jsval

record lsdbquery =
  bucket :: string
  filters :: "predicate list"
  orGroups :: "predicate list list"



definition orWhere :: "string \<Rightarrow> string option \<Rightarrow> jsval \<Rightarrow> lsdbquery \<Rightarrow> lsdbquery" where
  "orWhere p o' v q =
     q\<lparr>orGroups := orGroups q @
        [[\<lparr>prop' = p, op = (case o' of None \<Rightarrow> ''eq'' | Some x \<Rightarrow> x), val = v\<rparr>]]\<rparr>"











subsection \<open>The sample data of the source\<close>

text \<open>The four employees and the queries of the examples at the end of idb.js.\<close>

definition employee :: "string \<Rightarrow> string \<Rightarrow> string \<Rightarrow> int \<Rightarrow> jsval" where
  "employee name city grp age =
     JObj [(''name'', JStr name), (''address'', JObj [(''city'', JStr city)]),
           (''group'', JStr grp), (''age'', JNum age)]"

definition employees :: "jsval list" where
  "employees =
     [employee ''Alice'' ''London'' ''IT'' 28, employee ''Bob'' ''Paris'' ''HR'' 35,
      employee ''Charlie'' ''London'' ''HR'' 40, employee ''David'' ''London'' ''IT'' 22]"

definition empty_env :: env where
  "empty_env = \<lparr>localStorage = [], uuid_calls = 0\<rparr>"

definition employee_store :: "(nat \<Rightarrow> string) \<Rightarrow> env" where
  "employee_store rnd =
     foldl (\<lambda>st item. snd (lsdb_insert rnd lsdbInstance ''employee'' item st)) empty_env employees"



definition db_staff :: idb where
  "db_staff =
     [(''employee'',
       \<lparr>records =
          [(''id'', JNum 1) # own_entries (employee ''Alice'' ''London'' ''IT'' 28),
           (''id'', JNum 2) # own_entries (employee ''Bob'' ''Paris'' ''HR'' 35)],
        current_number = 3\<rparr>)]"

definition anna :: jsval where
  "anna = JObj [(''name'', JStr ''Anna'')]"

definition sample_uuid :: "nat \<Rightarrow> string" where
  "sample_uuid n = replicate (Suc n) (CHR ''u'')"

definition stored_employee :: "string \<Rightarrow> string \<Rightarrow> string \<Rightarrow> string \<Rightarrow> int \<Rightarrow> doc" where
  "stored_employee ident name city grp age =
     [(''id'', JStr ident), (''name'', JStr name), (''address'', JObj [(''city'', JStr city)]),
      (''group'', JStr grp), (''age'', JNum age)]"

text \<open>A second store, with an employee and an order of its own, and a store that holds a
  document without an id.\<close>

definition archive_store :: env where
  "archive_store =
     snd (lsdb_insert sample_uuid lsdbInstance ''orders'' (JObj [(''item'', JStr ''pen'')])
       (snd (lsdb_insert sample_uuid lsdbInstance ''employee'' (JObj [(''name'', JStr ''Zed'')])
          empty_env)))"

definition idless_store :: env where
  "idless_store =
     snd (lsdb_insert sample_uuid lsdbInstance ''users''
       (JObj [(''id'', JUndefined), (''name'', JStr ''x'')]) empty_env)"



section \<open>LSQuery: ordering\<close>

text \<open>
  \<^verbatim>\<open>Array.prototype.sort\<close> with a comparator. The elements that are \<^verbatim>\<open>undefined\<close> never
  reach the comparator: the language puts them after all others. For the others it fixes
  the result when the comparator is consistent: the elements in comparator order, elements
  that compare as equal in their original order. Insertion from the right, each element
  placed before the first one it is not greater than, computes that result. For a
  comparator that is not a consistent ordering the language leaves the order to the
  implementation.
\<close>

fun insert_sorted :: "('a \<Rightarrow> 'a \<Rightarrow> int) \<Rightarrow> 'a \<Rightarrow> 'a list \<Rightarrow> 'a list" where
  "insert_sorted cmp x [] = [x]"
| "insert_sorted cmp x (y # ys) =
     (if cmp x y > 0 then y # insert_sorted cmp x ys else x # y # ys)"

definition stable_sort :: "('a \<Rightarrow> 'a \<Rightarrow> int) \<Rightarrow> 'a list \<Rightarrow> 'a list" where
  "stable_sort cmp xs = foldr (insert_sorted cmp) xs []"

definition js_sort :: "(jsval \<Rightarrow> jsval \<Rightarrow> int) \<Rightarrow> jsval list \<Rightarrow> jsval list" where
  "js_sort cmp xs =
     stable_sort cmp (filter (\<lambda>x. x \<noteq> JUndefined) xs) @ filter (\<lambda>x. x = JUndefined) xs"

text \<open>\<^verbatim>\<open>orderBy\<close> and \<^verbatim>\<open>orderByDescending\<close> sort a copy of the data of an \<^verbatim>\<open>LSQuery\<close>; the
  comparators are \<^verbatim>\<open>x > y ? 1 : x < y ? -1 : 0\<close> and \<^verbatim>\<open>x < y ? 1 : x > y ? -1 : 0\<close> on the
  selected keys. The selector is a function that returns.\<close>

definition ascending :: "(jsval \<Rightarrow> jsval) \<Rightarrow> jsval \<Rightarrow> jsval \<Rightarrow> int" where
  "ascending selector a b =
     (let x = selector a; y = selector b
      in if js_gt x y then 1 else if js_lt x y then - 1 else 0)"

definition descending :: "(jsval \<Rightarrow> jsval) \<Rightarrow> jsval \<Rightarrow> jsval \<Rightarrow> int" where
  "descending selector a b =
     (let x = selector a; y = selector b
      in if js_lt x y then 1 else if js_gt x y then - 1 else 0)"

definition orderBy :: "(jsval \<Rightarrow> jsval) \<Rightarrow> jsval list \<Rightarrow> jsval list" where
  "orderBy selector data = js_sort (ascending selector) data"

definition orderByDescending :: "(jsval \<Rightarrow> jsval) \<Rightarrow> jsval list \<Rightarrow> jsval list" where
  "orderByDescending selector data = js_sort (descending selector) data"

text \<open>The elements of a sequence that are not \<^verbatim>\<open>undefined\<close>, and those that are.\<close>

definition defined :: "jsval list \<Rightarrow> jsval list" where
  "defined xs = filter (\<lambda>x. x \<noteq> JUndefined) xs"

definition undefineds :: "jsval list \<Rightarrow> jsval list" where
  "undefineds xs = filter (\<lambda>x. x = JUndefined) xs"

fun is_number :: "jsval \<Rightarrow> bool" where
  "is_number (JNum n) = True"
| "is_number v = False"

fun is_string :: "jsval \<Rightarrow> bool" where
  "is_string (JStr s) = True"
| "is_string v = False"

text \<open>Comparable keys: all numbers, or all strings.\<close>

definition comparable_keys :: "jsval list \<Rightarrow> bool" where
  "comparable_keys ks = (list_all is_number ks \<or> list_all is_string ks)"

definition age_of :: "jsval \<Rightarrow> jsval" where
  "age_of v = (case v of JObj d \<Rightarrow> obj_get d ''age'' | _ \<Rightarrow> JUndefined)"

definition staff :: "jsval list" where
  "staff = employees @ [employee ''Eve'' ''Rome'' ''IT'' 28]"

text \<open>The selector \<^verbatim>\<open>x => x === undefined ? 0 : x\<close>.\<close>

definition value_or_zero :: "jsval \<Rightarrow> jsval" where
  "value_or_zero v = (if v = JUndefined then JNum 0 else v)"

section \<open>Properties of the predicate evaluator\<close>

lemma array_index_not_inherited: "array_index k = Some i \<Longrightarrow> k \<notin> set array_prototype_names"
  by (auto simp: array_prototype_names_def object_prototype_names_def array_index_def is_digit_def)

lemma array_index_length: "array_index ''length'' = None"
  by (simp add: array_index_def is_digit_def)

lemma length_not_inherited: "''length'' \<notin> set array_prototype_names"
  by (simp add: array_prototype_names_def object_prototype_names_def)

lemma reduce_path_falsy:
  "\<not> truthy v \<Longrightarrow> reduce_path v ks = Inr (if ks = [] then v else JUndefined)"
proof (induction ks arbitrary: v)
  case Nil
  then show ?case by simp
next
  case (Cons k ks)
  have step: "nested_step v k = Inr JUndefined"
    using Cons.prems by (cases v) auto
  have "reduce_path JUndefined ks = Inr (if ks = [] then JUndefined else JUndefined)"
    by (rule Cons.IH) simp
  with step show ?case by simp
qed

lemma js_less_undefined_left: "js_less JUndefined e = None"
  by (cases "ToPrimitive e") (auto simp: js_less_def split: option.splits)

lemma js_less_undefined_right: "js_less e JUndefined = None"
  by (cases "ToPrimitive e") (auto simp: js_less_def split: option.splits)







lemma map_of_setItem: "map_of (setItem ls k v) k' = (if k' = k then Some v else map_of ls k')"
  by (induction ls) auto

lemma load_ensure: "load pre b (ensure pre b st) = load pre b st"
  by (simp add: load_def ensure_def getItem_def map_of_setItem split: option.splits)










lemma employee_store_value:
  "employee_store rnd =
     \<lparr>localStorage =
        [(''APP_employee'',
          [stored_employee (rnd 0) ''Alice'' ''London'' ''IT'' 28,
           stored_employee (rnd 1) ''Bob'' ''Paris'' ''HR'' 35,
           stored_employee (rnd 2) ''Charlie'' ''London'' ''HR'' 40,
           stored_employee (rnd 3) ''David'' ''London'' ''IT'' 22])],
      uuid_calls = 4\<rparr>"
  by (simp add: employee_store_def employees_def employee_def stored_employee_def
      lsdb_insert_def bucket_accessor_def ensure_def load_def save_def getItem_def
      key_def lsdbInstance_def empty_env_def spread_def json_doc_def Let_def eval_nat_numeral)








text \<open>
  C2, as the code has it. The path is split on the dot and folded from the document. A node
  that is falsy (\<^verbatim>\<open>undefined\<close>, \<^verbatim>\<open>null\<close>, \<^verbatim>\<open>false\<close>, 0, the empty string) gives
  \<^verbatim>\<open>undefined\<close> for the rest of the path, and so does an object or array for a key that is
  neither a field of its own nor a name it inherits from its built-in prototype; none of
  these is an error. An object that has the key is descended into, and so is an array, by
  index and by \<^verbatim>\<open>length\<close>. Comparing \<^verbatim>\<open>undefined\<close> with lt, lte, gt or gte is false for every
  expected value. Nothing is said about a truthy number, string or boolean met before the
  last segment, nor about what follows an inherited name.
\<close>

theorem getNestedValue_resolution:
  "getNestedValue obj path = reduce_path obj (split_dot path)
   \<and> (\<not> truthy v \<longrightarrow> reduce_path v (k # ks) = Inr JUndefined)
   \<and> (map_of kvs k = None \<and> k \<notin> set object_prototype_names \<longrightarrow>
        reduce_path (JObj kvs) (k # ks) = Inr JUndefined)
   \<and> (map_of kvs k = Some w \<longrightarrow> reduce_path (JObj kvs) (k # ks) = reduce_path w ks)
   \<and> (k \<noteq> ''length'' \<and> array_index k = None \<and> k \<notin> set array_prototype_names \<longrightarrow>
        reduce_path (JArr xs) (k # ks) = Inr JUndefined)
   \<and> (array_index k = Some i \<and> length xs \<le> i \<longrightarrow>
        reduce_path (JArr xs) (k # ks) = Inr JUndefined)
   \<and> (array_index k = Some i \<and> i < length xs \<longrightarrow>
        reduce_path (JArr xs) (k # ks) = reduce_path (xs ! i) ks)
   \<and> reduce_path (JArr xs) (''length'' # ks) = reduce_path (JNum (int (length xs))) ks
   \<and> getNestedValue (JObj [(''name'', JStr ''Alice'')]) ''address.city'' = Inr JUndefined
   \<and> (opr \<in> set [''lt'', ''lte'', ''gt'', ''gte''] \<longrightarrow> \<not> compare JUndefined opr e)
   \<and> \<not> compare JUndefined ''gte'' (JNum 5)"
proof -
  have a: "getNestedValue obj path = reduce_path obj (split_dot path)"
    by (simp add: getNestedValue_def)
  have b: "\<not> truthy v \<longrightarrow> reduce_path v (k # ks) = Inr JUndefined"
  proof
    assume "\<not> truthy v"
    from reduce_path_falsy [OF this, of "k # ks"]
    show "reduce_path v (k # ks) = Inr JUndefined" by simp
  qed
  have u: "reduce_path JUndefined ks = Inr JUndefined"
    by (simp add: reduce_path_falsy)
  have c: "map_of kvs k = None \<and> k \<notin> set object_prototype_names \<longrightarrow>
        reduce_path (JObj kvs) (k # ks) = Inr JUndefined"
    by (simp add: u)
  have d: "map_of kvs k = Some w \<longrightarrow> reduce_path (JObj kvs) (k # ks) = reduce_path w ks"
    by simp
  have f: "k \<noteq> ''length'' \<and> array_index k = None \<and> k \<notin> set array_prototype_names \<longrightarrow>
        reduce_path (JArr xs) (k # ks) = Inr JUndefined"
    by (simp add: array_get_def u)
  have g: "array_index k = Some i \<and> length xs \<le> i \<longrightarrow>
        reduce_path (JArr xs) (k # ks) = Inr JUndefined"
    using array_index_not_inherited [of k i] array_index_length by (auto simp: array_get_def u)
  have g': "array_index k = Some i \<and> i < length xs \<longrightarrow>
        reduce_path (JArr xs) (k # ks) = reduce_path (xs ! i) ks"
    using array_index_not_inherited [of k i] array_index_length by (auto simp: array_get_def)
  have g'': "reduce_path (JArr xs) (''length'' # ks) = reduce_path (JNum (int (length xs))) ks"
    using length_not_inherited by (simp add: array_get_def)
  have h: "getNestedValue (JObj [(''name'', JStr ''Alice'')]) ''address.city'' = Inr JUndefined"
    by code_simp
  have i: "opr \<in> set [''lt'', ''lte'', ''gt'', ''gte''] \<longrightarrow> \<not> compare JUndefined opr e"
    by (auto simp: compare_def js_lt_def js_lte_def js_gt_def js_gte_def
        js_less_undefined_left js_less_undefined_right)
  have j: "\<not> compare JUndefined ''gte'' (JNum 5)"
    by code_simp
  show ?thesis by (intro conjI a b c d f g g' g'' h i j)
qed

theorem getNestedValue_resolution_witness:
  "\<not> truthy JNull
   \<and> reduce_path JNull [''city'', ''zip''] = Inr JUndefined
   \<and> map_of [(''name'', JStr ''Alice'')] ''address'' = None
   \<and> ''address'' \<notin> set object_prototype_names
   \<and> reduce_path (JObj [(''name'', JStr ''Alice'')]) [''address'', ''city''] = Inr JUndefined
   \<and> map_of [(''address'', JObj [(''city'', JStr ''Paris'')])] ''address''
       = Some (JObj [(''city'', JStr ''Paris'')])
   \<and> reduce_path (JObj [(''address'', JObj [(''city'', JStr ''Paris'')])]) [''address'', ''city'']
       = Inr (JStr ''Paris'')
   \<and> array_index ''first'' = None
   \<and> ''first'' \<notin> set array_prototype_names
   \<and> reduce_path (JArr [JStr ''a'', JStr ''b'']) [''first'', ''x''] = Inr JUndefined
   \<and> array_index ''5'' = Some 5
   \<and> reduce_path (JArr [JStr ''a'', JStr ''b'']) [''5'', ''x''] = Inr JUndefined
   \<and> array_index ''1'' = Some 1
   \<and> reduce_path (JArr [JStr ''a'', JStr ''b'']) [''1''] = Inr (JStr ''b'')
   \<and> ''gte'' \<in> set [''lt'', ''lte'', ''gt'', ''gte'']
   \<and> \<not> compare JUndefined ''gte'' (JStr ''5'')"
proof -
  note T = getNestedValue_resolution [where xs = "[JStr ''a'', JStr ''b'']" and opr = "''gte''"
      and e = "JStr ''5''"]
  have n: "''address'' \<notin> set object_prototype_names" "''first'' \<notin> set array_prototype_names"
    by (simp_all add: object_prototype_names_def array_prototype_names_def)
  have x: "array_index ''first'' = None" "array_index ''5'' = Some 5" "array_index ''1'' = Some 1"
    by (simp_all add: array_index_def is_digit_def decimal_val_def digit_val_def)
  have w1: "reduce_path JNull [''city'', ''zip''] = Inr JUndefined"
    using T [where v = JNull and k = "''city''" and ks = "[''zip'']"] by simp
  have w2: "reduce_path (JObj [(''name'', JStr ''Alice'')]) [''address'', ''city''] = Inr JUndefined"
    using T [where kvs = "[(''name'', JStr ''Alice'')]" and k = "''address''" and ks = "[''city'']"]
      n(1) by simp
  have "reduce_path (JObj [(''address'', JObj [(''city'', JStr ''Paris'')])]) [''address'', ''city'']
      = reduce_path (JObj [(''city'', JStr ''Paris'')]) [''city'']"
    using T [where kvs = "[(''address'', JObj [(''city'', JStr ''Paris'')])]" and k = "''address''"
        and ks = "[''city'']" and w = "JObj [(''city'', JStr ''Paris'')]"] by simp
  moreover have "reduce_path (JObj [(''city'', JStr ''Paris'')]) [''city''] = reduce_path (JStr ''Paris'') []"
    using T [where kvs = "[(''city'', JStr ''Paris'')]" and k = "''city''" and ks = "[]"
        and w = "JStr ''Paris''"] by simp
  ultimately have w3: "reduce_path (JObj [(''address'', JObj [(''city'', JStr ''Paris'')])])
      [''address'', ''city''] = Inr (JStr ''Paris'')"
    by simp
  have w4: "reduce_path (JArr [JStr ''a'', JStr ''b'']) [''first'', ''x''] = Inr JUndefined"
    using T [where k = "''first''" and ks = "[''x'']"] n(2) x(1) by simp
  have w5: "reduce_path (JArr [JStr ''a'', JStr ''b'']) [''5'', ''x''] = Inr JUndefined"
    using T [where k = "''5''" and ks = "[''x'']" and i = 5] x(2) by simp
  have w6: "reduce_path (JArr [JStr ''a'', JStr ''b'']) [''1''] = Inr (JStr ''b'')"
    using T [where k = "''1''" and ks = "[]" and i = 1] x(3) by simp
  have w7: "\<not> compare JUndefined ''gte'' (JStr ''5'')"
    using T by simp
  show ?thesis using n x w1 w2 w3 w4 w5 w6 w7 by simp
qed

text \<open>
  C2 as stated fails. An array is not a mapping, yet the path descends into it by index.
  And a truthy string met before the last segment makes the \<^verbatim>\<open>in\<close> operator throw a
  \<^verbatim>\<open>TypeError\<close>, where the claim promises \<^verbatim>\<open>undefined\<close> and never an error.
\<close>

theorem getNestedValue_counterexample:
  "getNestedValue (JObj [(''tags'', JArr [JStr ''a'', JStr ''b''])]) ''tags.0'' = Inr (JStr ''a'')
   \<and> getNestedValue (JObj [(''name'', JStr ''Alice'')]) ''name.first'' = Inl (Thrown TypeError)"
  by code_simp

text \<open>
  Nor does an object that lacks the key always give \<^verbatim>\<open>undefined\<close>: on the same document
  the path \<^verbatim>\<open>constructor.name\<close> finds the inherited name \<^verbatim>\<open>constructor\<close> and goes on into
  the built-in function \<^verbatim>\<open>Object\<close>.
\<close>

lemma getNestedValue_inherited:
  "getNestedValue (JObj [(''name'', JStr ''Alice'')]) ''constructor.name'' = Inl Builtin"
  by code_simp

text \<open>
  C3. The \<^verbatim>\<open>eq\<close> operator is the loose equality \<^verbatim>\<open>==\<close>: the string 3 equals the number 3
  and differs from the number 4; \<^verbatim>\<open>neq\<close> is its negation; an operator that is none of the
  six behaves as \<^verbatim>\<open>eq\<close>.
\<close>

theorem compare_eq_is_loose:
  "compare v ''eq'' e = loose_eq v e
   \<and> compare (JStr ''3'') ''eq'' (JNum 3)
   \<and> \<not> compare (JStr ''3'') ''eq'' (JNum 4)
   \<and> \<not> strict_eq (JStr ''3'') (JNum 3)
   \<and> compare v ''neq'' e = (\<not> compare v ''eq'' e)
   \<and> (opr \<notin> set [''eq'', ''neq'', ''lt'', ''lte'', ''gt'', ''gte''] \<longrightarrow>
        compare v opr e = compare v ''eq'' e)"
proof -
  have a: "compare v ''eq'' e = loose_eq v e"
    by (simp add: compare_def)
  have b: "compare (JStr ''3'') ''eq'' (JNum 3)"
    by code_simp
  have c: "\<not> compare (JStr ''3'') ''eq'' (JNum 4)"
    by code_simp
  have d: "compare v ''neq'' e = (\<not> compare v ''eq'' e)"
    by (simp add: compare_def)
  have f: "opr \<notin> set [''eq'', ''neq'', ''lt'', ''lte'', ''gt'', ''gte''] \<longrightarrow>
        compare v opr e = compare v ''eq'' e"
    by (simp add: compare_def)
  from a b c d f show ?thesis by simp
qed

theorem compare_eq_is_loose_witness:
  "''like'' \<notin> set [''eq'', ''neq'', ''lt'', ''lte'', ''gt'', ''gte'']
   \<and> compare (JStr ''3'') ''like'' (JNum 3) = compare (JStr ''3'') ''eq'' (JNum 3)
   \<and> compare (JStr ''3'') ''neq'' (JNum 3) = (\<not> compare (JStr ''3'') ''eq'' (JNum 3))"
  using compare_eq_is_loose [of "JStr ''3''" "JNum 3" "''like''"] by simp

section \<open>Properties of the LSDB store\<close>

lemma replace_first_prefix: "startsWith k p \<Longrightarrow> replace_first p [] k = drop (length p) k"
  by (cases k) (auto simp: startsWith_def)

lemma startsWith_key: "startsWith (key pre b) pre"
  by (simp add: startsWith_def key_def)

lemma listBuckets_eq:
  "listBuckets pre st =
     map (drop (length pre)) (filter (\<lambda>k. startsWith k pre) (map fst (localStorage st)))"
  unfolding listBuckets_def by (rule map_cong) (auto simp: replace_first_prefix)

lemma mem_map_filter: "b \<in> set (map f (filter P xs)) \<longleftrightarrow> (\<exists>k. k \<in> set xs \<and> P k \<and> b = f k)"
  by auto

lemma listBuckets_member:
  "b \<in> set (listBuckets pre st) \<longleftrightarrow> key pre b \<in> set (map fst (localStorage st))"
proof
  assume "b \<in> set (listBuckets pre st)"
  then have "\<exists>k. k \<in> set (map fst (localStorage st)) \<and> startsWith k pre \<and> b = drop (length pre) k"
    unfolding listBuckets_eq mem_map_filter .
  then obtain k where k: "k \<in> set (map fst (localStorage st))" and sw: "startsWith k pre"
    and b: "b = drop (length pre) k"
    by (elim exE conjE)
  from sw have "take (length pre) k = pre" by (simp add: startsWith_def)
  then have "pre @ drop (length pre) k = k" by (metis append_take_drop_id)
  with b have "k = key pre b" by (simp add: key_def)
  with k show "key pre b \<in> set (map fst (localStorage st))" by simp
next
  assume "key pre b \<in> set (map fst (localStorage st))"
  moreover have "b = drop (length pre) (key pre b)" by (simp add: key_def)
  ultimately have "\<exists>k. k \<in> set (map fst (localStorage st)) \<and> startsWith k pre \<and> b = drop (length pre) k"
    using startsWith_key [of pre b] by (intro exI [of _ "key pre b"] conjI)
  then show "b \<in> set (listBuckets pre st)"
    unfolding listBuckets_eq mem_map_filter .
qed

lemma keys_setItem: "fst ` set (setItem ls k v) = insert k (fst ` set ls)"
  by (induction ls) auto

lemma setItem_absent: "map_of ls k = None \<Longrightarrow> setItem ls k v = ls @ [(k, v)]"
  by (induction ls) (auto split: if_splits)

lemma map_of_None_iff: "map_of ls k = None \<longleftrightarrow> k \<notin> fst ` set ls"
  by (simp add: map_of_eq_None_iff)

lemma ensure_keys:
  "fst ` set (localStorage (ensure pre b st)) = insert (key pre b) (fst ` set (localStorage st))"
proof (cases "map_of (localStorage st) (key pre b)")
  case None
  then show ?thesis by (simp add: ensure_def getItem_def keys_setItem)
next
  case (Some data)
  then have "key pre b \<in> fst ` set (localStorage st)"
    using map_of_eq_None_iff [of "localStorage st" "key pre b"] by simp
  with Some show ?thesis by (auto simp: ensure_def getItem_def)
qed

text \<open>
  C10. Obtaining the bucket accessor, and so every operation routed through it, the
  read-only \<^verbatim>\<open>all()\<close> and \<^verbatim>\<open>filterBy()\<close> included, leaves the bucket in existence:
  \<^verbatim>\<open>listBuckets\<close> lists its name afterwards, and a bucket that did not exist before is
  created empty. The name is listed after \<^verbatim>\<open>insert\<close>, \<^verbatim>\<open>update\<close> and \<^verbatim>\<open>delete\<close> as well.
\<close>

theorem bucket_accessor_creates:
  "name \<in> set (listBuckets pre (bucket_accessor pre name st))
   \<and> snd (lsdb_all pre name st) = bucket_accessor pre name st
   \<and> snd (filterBy pre name props st) = bucket_accessor pre name st
   \<and> (name \<notin> set (listBuckets pre st) \<longrightarrow>
        localStorage (bucket_accessor pre name st) = localStorage st @ [(key pre name, [])]
        \<and> fst (lsdb_all pre name st) = []
        \<and> fst (filterBy pre name props st) = [])
   \<and> name \<in> set (listBuckets pre (snd (lsdb_insert rnd pre name item st)))
   \<and> name \<in> set (listBuckets pre (snd (lsdb_update pre name ident newData st)))
   \<and> name \<in> set (listBuckets pre (snd (lsdb_delete pre name ident st)))"
proof -
  have i: "name \<in> set (listBuckets pre (snd (lsdb_insert rnd pre name item st)))"
    unfolding listBuckets_member set_map
    by (simp add: lsdb_insert_def bucket_accessor_def Let_def save_def keys_setItem)
  have u: "name \<in> set (listBuckets pre (snd (lsdb_update pre name ident newData st)))"
    unfolding listBuckets_member set_map
    by (simp add: lsdb_update_def bucket_accessor_def Let_def save_def keys_setItem ensure_keys
        split: option.splits)
  have r: "name \<in> set (listBuckets pre (snd (lsdb_delete pre name ident st)))"
    unfolding listBuckets_member set_map
    by (simp add: lsdb_delete_def bucket_accessor_def Let_def save_def keys_setItem)
  have a: "name \<in> set (listBuckets pre (bucket_accessor pre name st))"
    unfolding listBuckets_member bucket_accessor_def set_map ensure_keys by simp
  have b: "snd (lsdb_all pre name st) = bucket_accessor pre name st"
    by (simp add: lsdb_all_def Let_def)
  have c: "snd (filterBy pre name props st) = bucket_accessor pre name st"
    by (simp add: filterBy_def Let_def)
  have d: "localStorage (bucket_accessor pre name st) = localStorage st @ [(key pre name, [])]
        \<and> fst (lsdb_all pre name st) = [] \<and> fst (filterBy pre name props st) = []"
    if "name \<notin> set (listBuckets pre st)"
  proof -
    from that have n: "map_of (localStorage st) (key pre name) = None"
      by (simp add: listBuckets_member map_of_eq_None_iff)
    then have e: "localStorage (bucket_accessor pre name st) = localStorage st @ [(key pre name, [])]"
      by (simp add: bucket_accessor_def ensure_def getItem_def setItem_absent)
    have l: "load pre name (bucket_accessor pre name st) = []"
      using n by (simp add: bucket_accessor_def load_ensure) (simp add: load_def getItem_def)
    show ?thesis using e l by (simp add: lsdb_all_def filterBy_def Let_def)
  qed
  from a b c d i u r show ?thesis by blast
qed

theorem bucket_accessor_creates_witness:
  "''orders'' \<notin> set (listBuckets lsdbInstance (employee_store sample_uuid))
   \<and> ''orders'' \<in> set (listBuckets lsdbInstance (snd (lsdb_all lsdbInstance ''orders'' (employee_store sample_uuid))))
   \<and> fst (lsdb_all lsdbInstance ''orders'' (employee_store sample_uuid)) = []"
proof -
  have "''orders'' \<notin> set (listBuckets lsdbInstance (employee_store sample_uuid))"
    unfolding employee_store_value by (simp add: listBuckets_def lsdbInstance_def startsWith_def)
  with bucket_accessor_creates [of "''orders''" lsdbInstance "employee_store sample_uuid" "[]"]
  show ?thesis by simp
qed

lemma map_of_obj_set: "map_of (obj_set d k v) k' = (if k' = k then Some v else map_of d k')"
  by (induction d) auto

lemma obj_get_obj_set: "obj_get (obj_set d k v) k' = (if k' = k then v else obj_get d k')"
  by (simp add: obj_get_def map_of_obj_set)

lemma map_of_fold_obj_set:
  "map_of (foldl (\<lambda>acc p. obj_set acc (fst p) (snd p)) base es) k =
     (case map_of (rev es) k of Some v \<Rightarrow> Some v | None \<Rightarrow> map_of base k)"
proof (induction es arbitrary: base)
  case Nil
  then show ?case by simp
next
  case (Cons e es)
  show ?case
    by (simp add: Cons.IH map_of_obj_set map_add_def [symmetric] map_add_Some_iff
        split: option.splits) (auto simp: map_add_def split: option.splits)
qed

lemma spread_absent:
  "k \<notin> fst ` set (own_entries v) \<Longrightarrow> obj_get (spread base v) k = obj_get base k"
proof -
  assume "k \<notin> fst ` set (own_entries v)"
  then have "map_of (rev (own_entries v)) k = None"
    by (simp add: map_of_eq_None_iff)
  then show ?thesis by (simp add: obj_get_def spread_def map_of_fold_obj_set)
qed

lemma spread_present:
  assumes "distinct (map fst (own_entries v))" "(k, w) \<in> set (own_entries v)"
  shows "obj_get (spread base v) k = w"
proof -
  from assms have "map_of (rev (own_entries v)) k = Some w"
    by (intro map_of_is_SomeI) (auto simp: distinct_rev rev_map [symmetric])
  then show ?thesis by (simp add: obj_get_def spread_def map_of_fold_obj_set)
qed

lemma findIndex_None: "findIndex P xs = None \<longleftrightarrow> (\<forall>x\<in>set xs. \<not> P x)"
  by (induction xs) auto

lemma findIndex_Some:
  "findIndex P xs = Some i \<Longrightarrow> i < length xs \<and> P (xs ! i) \<and> (\<forall>j<i. \<not> P (xs ! j))"
proof (induction xs arbitrary: i)
  case Nil
  then show ?case by simp
next
  case (Cons x xs)
  show ?case
  proof (cases "P x")
    case True
    with Cons.prems show ?thesis by simp
  next
    case False
    with Cons.prems obtain i' where i': "findIndex P xs = Some i'" "i = Suc i'" by auto
    from Cons.IH [OF i'(1)] False i'(2) show ?thesis
      by (auto simp: less_Suc_eq_0_disj)
  qed
qed

lemma key_inject: "key pre b = key pre b' \<longleftrightarrow> b = b'"
  by (simp add: key_def)

lemma load_save: "load pre b' (save pre b data st) = (if b' = b then map json_doc data else load pre b' st)"
  by (simp add: load_def save_def getItem_def map_of_setItem key_inject)

lemma load_ensure_other: "load pre b' (ensure pre b st) = load pre b' st"
  by (cases "b' = b") (auto simp: load_ensure load_def ensure_def getItem_def map_of_setItem key_inject split: option.splits)

lemma ensure_existing: "b \<in> set (listBuckets pre st) \<Longrightarrow> ensure pre b st = st"
  unfolding listBuckets_member set_map
  by (auto simp: ensure_def getItem_def map_of_eq_None_iff split: option.splits)

lemma lsdb_update_found:
  assumes "findIndex (\<lambda>x. strict_eq (obj_get x ''id'') ident) (load pre b st) = Some i"
  shows "lsdb_update pre b ident newData st =
           (Some (spread (load pre b st ! i) newData),
            save pre b ((load pre b st)[i := spread (load pre b st ! i) newData]) (ensure pre b st))"
  using assms by (simp add: lsdb_update_def bucket_accessor_def load_ensure Let_def)

lemma lsdb_update_missing:
  assumes "findIndex (\<lambda>x. strict_eq (obj_get x ''id'') ident) (load pre b st) = None"
  shows "lsdb_update pre b ident newData st = (None, ensure pre b st)"
  using assms by (simp add: lsdb_update_def bucket_accessor_def load_ensure Let_def)

lemma put_record_member: "r \<in> set (put_record k r rs)"
  by (induction rs) auto

lemma put_record_length: "\<not> has_key k rs \<Longrightarrow> length (put_record k r rs) = Suc (length rs)"
  by (induction rs) (auto simp: has_key_def)

lemma IDb_update_put:
  assumes "map_of db b = Some os" "obj_get data ''id'' = k" "valid_key k"
  shows "\<exists>n. IDb_update db b data =
           (Inr k, setItem db b \<lparr>records = put_record k data (records os), current_number = n\<rparr>)"
proof -
  from assms have "k \<noteq> JUndefined" by auto
  with assms have "IDb_update db b data =
      (Inr k, setItem db b \<lparr>records = put_record k data (records os),
         current_number = (case k of
                  JNum i \<Rightarrow> if int (current_number os) \<le> i then nat i + 1 else current_number os
                | _ \<Rightarrow> current_number os)\<rparr>)"
    by (simp add: IDb_update_def getStore_def extract_key_def store_record_def Let_def)
  then show ?thesis by (rule exI)
qed

text \<open>
  C4, as the code has it. \<^verbatim>\<open>LSDB\<close>'s \<^verbatim>\<open>update\<close> looks for the first stored document whose id is
  strictly equal to the given one. When there is one, the result is the shallow merge: a
  key of the supplied data takes the supplied value, any other key keeps the stored value,
  and the merged document replaces the stored one. When there is none, \<^verbatim>\<open>update\<close> returns
  \<^verbatim>\<open>false\<close>, inserts nothing and leaves the documents of every bucket as they were; the state
  is the one the bucket accessor leaves, unchanged when the bucket existed. \<^verbatim>\<open>IDb.update\<close>
  is \<^verbatim>\<open>put\<close>: for a record with a valid id it resolves with the key and stores the supplied
  record under it, as one more record when no record had that key.
\<close>

theorem update_merges_or_reports:
  "(findIndex (\<lambda>x. strict_eq (obj_get x ''id'') ident) (load pre b st) = Some i \<longrightarrow>
      i < length (load pre b st)
      \<and> strict_eq (obj_get (load pre b st ! i) ''id'') ident
      \<and> fst (lsdb_update pre b ident newData st) = Some (spread (load pre b st ! i) newData)
      \<and> load pre b (snd (lsdb_update pre b ident newData st)) =
          map json_doc ((load pre b st)[i := spread (load pre b st ! i) newData])
      \<and> (k \<notin> fst ` set (own_entries newData) \<longrightarrow>
           obj_get (spread (load pre b st ! i) newData) k = obj_get (load pre b st ! i) k)
      \<and> (distinct (map fst (own_entries newData)) \<and> (k, w) \<in> set (own_entries newData) \<longrightarrow>
           obj_get (spread (load pre b st ! i) newData) k = w))
   \<and> ((\<forall>d\<in>set (load pre b st). \<not> strict_eq (obj_get d ''id'') ident) \<longrightarrow>
        fst (lsdb_update pre b ident newData st) = None
        \<and> snd (lsdb_update pre b ident newData st) = ensure pre b st
        \<and> load pre b' (snd (lsdb_update pre b ident newData st)) = load pre b' st
        \<and> (b \<in> set (listBuckets pre st) \<longrightarrow> snd (lsdb_update pre b ident newData st) = st))
   \<and> (map_of db b = Some os \<and> obj_get data ''id'' = key' \<and> valid_key key' \<longrightarrow>
        fst (IDb_update db b data) = Inr key'
        \<and> IDb_getAll (snd (IDb_update db b data)) b = Inr (put_record key' data (records os))
        \<and> data \<in> set (put_record key' data (records os))
        \<and> (\<not> has_key key' (records os) \<longrightarrow>
             length (put_record key' data (records os)) = Suc (length (records os))))"
proof (intro conjI impI)
  assume f: "findIndex (\<lambda>x. strict_eq (obj_get x ''id'') ident) (load pre b st) = Some i"
  from findIndex_Some [OF f]
  show "i < length (load pre b st)" "strict_eq (obj_get (load pre b st ! i) ''id'') ident"
    by simp_all
  show "fst (lsdb_update pre b ident newData st) = Some (spread (load pre b st ! i) newData)"
    by (simp add: lsdb_update_found [OF f])
  show "load pre b (snd (lsdb_update pre b ident newData st)) =
          map json_doc ((load pre b st)[i := spread (load pre b st ! i) newData])"
    by (simp add: lsdb_update_found [OF f] load_save)
next
  assume "k \<notin> fst ` set (own_entries newData)"
  then show "obj_get (spread (load pre b st ! i) newData) k = obj_get (load pre b st ! i) k"
    by (rule spread_absent)
next
  assume "distinct (map fst (own_entries newData)) \<and> (k, w) \<in> set (own_entries newData)"
  then show "obj_get (spread (load pre b st ! i) newData) k = w"
    by (simp add: spread_present)
next
  assume "\<forall>d\<in>set (load pre b st). \<not> strict_eq (obj_get d ''id'') ident"
  then have n: "findIndex (\<lambda>x. strict_eq (obj_get x ''id'') ident) (load pre b st) = None"
    by (simp add: findIndex_None)
  show "fst (lsdb_update pre b ident newData st) = None"
    by (simp add: lsdb_update_missing [OF n])
  show "snd (lsdb_update pre b ident newData st) = ensure pre b st"
    by (simp add: lsdb_update_missing [OF n])
  show "load pre b' (snd (lsdb_update pre b ident newData st)) = load pre b' st"
    by (simp add: lsdb_update_missing [OF n] load_ensure_other)
  show "snd (lsdb_update pre b ident newData st) = st" if "b \<in> set (listBuckets pre st)"
    using that by (simp add: lsdb_update_missing [OF n] ensure_existing)
next
  assume a: "map_of db b = Some os \<and> obj_get data ''id'' = key' \<and> valid_key key'"
  then obtain n where u: "IDb_update db b data =
      (Inr key', setItem db b \<lparr>records = put_record key' data (records os), current_number = n\<rparr>)"
    using IDb_update_put [of db b os data key'] by blast
  show "fst (IDb_update db b data) = Inr key'"
    by (simp add: u)
  show "IDb_getAll (snd (IDb_update db b data)) b = Inr (put_record key' data (records os))"
    by (simp add: u IDb_getAll_def getStore_def map_of_setItem)
  show "data \<in> set (put_record key' data (records os))"
    by (rule put_record_member)
  show "length (put_record key' data (records os)) = Suc (length (records os))"
    if "\<not> has_key key' (records os)"
    using that by (rule put_record_length)
qed


lemma employee_load:
  "load lsdbInstance ''employee'' (employee_store rnd) =
          [stored_employee (rnd 0) ''Alice'' ''London'' ''IT'' 28,
           stored_employee (rnd 1) ''Bob'' ''Paris'' ''HR'' 35,
           stored_employee (rnd 2) ''Charlie'' ''London'' ''HR'' 40,
           stored_employee (rnd 3) ''David'' ''London'' ''IT'' 22]"
  unfolding employee_store_value by (simp add: load_def getItem_def key_def lsdbInstance_def)

lemma sample_uuid_values:
  "sample_uuid 0 = ''u''" "sample_uuid (Suc 0) = ''uu''" "sample_uuid 1 = ''uu''" "sample_uuid 2 = ''uuu''" "sample_uuid 3 = ''uuuu''"
  by (simp_all add: sample_uuid_def eval_nat_numeral)

theorem update_merges_or_reports_witness:
  "findIndex (\<lambda>x. strict_eq (obj_get x ''id'') (JStr ''uu''))
      (load lsdbInstance ''employee'' (employee_store sample_uuid)) = Some 1
   \<and> ''name'' \<notin> fst ` set (own_entries (JObj [(''age'', JNum 36)]))
   \<and> obj_get (spread (load lsdbInstance ''employee'' (employee_store sample_uuid) ! 1)
              (JObj [(''age'', JNum 36)])) ''name'' = JStr ''Bob''
   \<and> obj_get (spread (load lsdbInstance ''employee'' (employee_store sample_uuid) ! 1)
              (JObj [(''age'', JNum 36)])) ''age'' = JNum 36
   \<and> list_all (\<lambda>d. \<not> strict_eq (obj_get d ''id'') (JStr ''nobody''))
         (load lsdbInstance ''employee'' (employee_store sample_uuid))
   \<and> ''employee'' \<in> set (listBuckets lsdbInstance (employee_store sample_uuid))
   \<and> lsdb_update lsdbInstance ''employee'' (JStr ''nobody'') (JObj [(''age'', JNum 36)])
        (employee_store sample_uuid) = (None, employee_store sample_uuid)
   \<and> map_of db_a ''employee'' = Some empty_store
   \<and> valid_key (obj_get zed ''id'')
   \<and> \<not> has_key (JNum 7) (records empty_store)
   \<and> IDb_getAll (snd (IDb_update db_a ''employee'' zed)) ''employee'' = Inr [zed]"
proof -
  let ?S = "employee_store sample_uuid"
  let ?new = "JObj [(''age'', JNum 36)]"
  note T = update_merges_or_reports [where pre = lsdbInstance and b = "''employee''" and st = ?S
      and newData = ?new and b' = "''employee''" and db = db_a and os = empty_store and data = zed
      and key' = "JNum 7"]
  have h1: "findIndex (\<lambda>x. strict_eq (obj_get x ''id'') (JStr ''uu''))
      (load lsdbInstance ''employee'' ?S) = Some 1"
    by (simp add: employee_load sample_uuid_values stored_employee_def obj_get_def)
  have h2: "''name'' \<notin> fst ` set (own_entries ?new)"
    by simp
  have h3: "distinct (map fst (own_entries ?new)) \<and> (''age'', JNum 36) \<in> set (own_entries ?new)"
    by simp
  have h4: "\<forall>d\<in>set (load lsdbInstance ''employee'' ?S). \<not> strict_eq (obj_get d ''id'') (JStr ''nobody'')"
    by (simp add: employee_load sample_uuid_values stored_employee_def obj_get_def)
  have h5: "''employee'' \<in> set (listBuckets lsdbInstance ?S)"
    unfolding employee_store_value by (simp add: listBuckets_def lsdbInstance_def startsWith_def)
  have h6: "map_of db_a ''employee'' = Some empty_store \<and> obj_get zed ''id'' = JNum 7 \<and> valid_key (JNum 7)"
    by (simp add: db_a_def zed_def obj_get_def)
  have h7: "\<not> has_key (JNum 7) (records empty_store)"
    by (simp add: has_key_def empty_store_def)
  have c1: "obj_get (spread (load lsdbInstance ''employee'' ?S ! 1) ?new) ''name'' =
      obj_get (load lsdbInstance ''employee'' ?S ! 1) ''name''"
    using T [where ident = "JStr ''uu''" and i = 1 and k = "''name''"] h1 h2 by blast
  have c2: "obj_get (spread (load lsdbInstance ''employee'' ?S ! 1) ?new) ''age'' = JNum 36"
    using T [where ident = "JStr ''uu''" and i = 1 and k = "''age''" and w = "JNum 36"] h1 h3 by blast
  have c3: "fst (lsdb_update lsdbInstance ''employee'' (JStr ''nobody'') ?new ?S) = None
      \<and> snd (lsdb_update lsdbInstance ''employee'' (JStr ''nobody'') ?new ?S) = ?S"
    using T [where ident = "JStr ''nobody''"] h4 h5 by blast
  have c4: "IDb_getAll (snd (IDb_update db_a ''employee'' zed)) ''employee'' =
      Inr (put_record (JNum 7) zed (records empty_store))"
    using T h6 by blast
  have e1: "obj_get (load lsdbInstance ''employee'' ?S ! 1) ''name'' = JStr ''Bob''"
    by (simp add: employee_load stored_employee_def obj_get_def)
  have e2: "put_record (JNum 7) zed (records empty_store) = [zed]"
    by (simp add: empty_store_def)
  from c3 have c3': "lsdb_update lsdbInstance ''employee'' (JStr ''nobody'') ?new ?S = (None, ?S)"
    by (simp add: prod_eq_iff)
  from h4 have h4': "list_all (\<lambda>d. \<not> strict_eq (obj_get d ''id'') (JStr ''nobody''))
         (load lsdbInstance ''employee'' ?S)"
    by (simp add: list_all_iff)
  from h1 h2 c1 c2 h4' h5 c3' h6 h7 c4 e1 e2 show ?thesis
    by simp
qed

text \<open>
  C4 as stated fails on \<^verbatim>\<open>IDb.update\<close>: with no record of id 7 in the store the update
  succeeds and inserts the record, and a second update of id 7 replaces the whole record
  (the name is gone) where the claim promises a merge.
\<close>

theorem update_counterexample:
  "IDb_getAll db_a ''employee'' = Inr []
   \<and> IDb_update db_a ''employee'' zed =
       (Inr (JNum 7),
        [(''department'', empty_store),
         (''employee'', \<lparr>records = [zed], current_number = 8\<rparr>),
         (''project'', empty_store)])
   \<and> IDb_getAll (snd (IDb_update (snd (IDb_update db_a ''employee'' zed)) ''employee''
        [(''id'', JNum 7), (''age'', JNum 4)])) ''employee'' = Inr [[(''id'', JNum 7), (''age'', JNum 4)]]"
  by (simp add: IDb_getAll_def IDb_update_def getStore_def db_a_def empty_store_def zed_def
      extract_key_def store_record_def obj_get_def has_key_def Let_def)

section \<open>Properties of insert\<close>

lemma uuid_calls_ensure: "uuid_calls (ensure pre b st) = uuid_calls st"
  by (simp add: ensure_def split: option.splits)

lemma uuid_calls_save: "uuid_calls (save pre b data st) = uuid_calls st"
  by (simp add: save_def)

lemma uuid_calls_insert: "uuid_calls (snd (lsdb_insert rnd pre b item st)) = Suc (uuid_calls st)"
  by (simp add: lsdb_insert_def bucket_accessor_def Let_def uuid_calls_save uuid_calls_ensure)

lemma uuid_calls_apply_op: "uuid_calls st \<le> uuid_calls (apply_op rnd pre st x)"
  by (cases x)
    (auto simp: uuid_calls_insert lsdb_update_def lsdb_delete_def lsdb_all_def filterBy_def
      createBucket_def deleteBucket_def bucket_accessor_def Let_def uuid_calls_save
      uuid_calls_ensure split: option.splits)

lemma uuid_calls_run_ops: "uuid_calls st \<le> uuid_calls (run_ops rnd pre st ops)"
  unfolding run_ops_def
proof (induction ops arbitrary: st)
  case Nil
  then show ?case by simp
next
  case (Cons x ops)
  have "uuid_calls st \<le> uuid_calls (apply_op rnd pre st x)"
    by (rule uuid_calls_apply_op)
  also have "\<dots> \<le> uuid_calls (foldl (apply_op rnd pre) (apply_op rnd pre st x) ops)"
    by (rule Cons.IH)
  finally show ?case by simp
qed

lemma insert_assigned_id:
  assumes "''id'' \<notin> fst ` set (own_entries item)"
  shows "obj_get (fst (lsdb_insert rnd pre b item st)) ''id'' = JStr (rnd (uuid_calls st))"
  using assms
  by (simp add: lsdb_insert_def bucket_accessor_def Let_def spread_absent uuid_calls_ensure)
    (simp add: obj_get_def)

lemma insert_supplied_id:
  assumes "distinct (map fst (own_entries item))" "(''id'', v) \<in> set (own_entries item)"
  shows "obj_get (fst (lsdb_insert rnd pre b item st)) ''id'' = v"
  using assms by (simp add: lsdb_insert_def bucket_accessor_def Let_def spread_present)

lemma insert_appends:
  "load pre b (snd (lsdb_insert rnd pre b item st)) =
     map json_doc (load pre b st @ [fst (lsdb_insert rnd pre b item st)])"
  by (simp add: lsdb_insert_def bucket_accessor_def Let_def load_save load_ensure)

text \<open>
  C6, as the code has it. A document inserted without an id of its own is returned with
  the value of that insertion's call of \<^verbatim>\<open>crypto.randomUUID()\<close>, and is appended to its
  bucket. As long as the generator never repeats a value, this id differs from the id of
  every later insertion without an id, whatever operations (deletes included) lie between,
  and from every id in the bucket when all of those were assigned by the store. An id that
  the caller supplies is kept as it is; the store does not compare it with the ids present.
\<close>

theorem insert_ids:
  "(''id'' \<notin> fst ` set (own_entries item) \<longrightarrow>
      obj_get (fst (lsdb_insert rnd pre b item st)) ''id'' = JStr (rnd (uuid_calls st)))
   \<and> (distinct (map fst (own_entries item)) \<and> (''id'', v) \<in> set (own_entries item) \<longrightarrow>
        obj_get (fst (lsdb_insert rnd pre b item st)) ''id'' = v)
   \<and> load pre b (snd (lsdb_insert rnd pre b item st)) =
        map json_doc (load pre b st @ [fst (lsdb_insert rnd pre b item st)])
   \<and> (inj rnd \<and> ''id'' \<notin> fst ` set (own_entries item) \<and> ''id'' \<notin> fst ` set (own_entries item') \<longrightarrow>
        obj_get (fst (lsdb_insert rnd pre b item st)) ''id'' \<noteq>
        obj_get (fst (lsdb_insert rnd pre b' item'
                       (run_ops rnd pre (snd (lsdb_insert rnd pre b item st)) ops))) ''id'')
   \<and> (inj rnd \<and> ''id'' \<notin> fst ` set (own_entries item) \<and>
        (\<forall>d\<in>set (load pre b st). \<exists>m<uuid_calls st. obj_get d ''id'' = JStr (rnd m)) \<longrightarrow>
        (\<forall>d\<in>set (load pre b st).
           obj_get d ''id'' \<noteq> obj_get (fst (lsdb_insert rnd pre b item st)) ''id''))"
proof (intro conjI impI)
  assume "''id'' \<notin> fst ` set (own_entries item)"
  then show "obj_get (fst (lsdb_insert rnd pre b item st)) ''id'' = JStr (rnd (uuid_calls st))"
    by (rule insert_assigned_id)
next
  assume "distinct (map fst (own_entries item)) \<and> (''id'', v) \<in> set (own_entries item)"
  then show "obj_get (fst (lsdb_insert rnd pre b item st)) ''id'' = v"
    by (simp add: insert_supplied_id)
next
  show "load pre b (snd (lsdb_insert rnd pre b item st)) =
        map json_doc (load pre b st @ [fst (lsdb_insert rnd pre b item st)])"
    by (rule insert_appends)
next
  assume a: "inj rnd \<and> ''id'' \<notin> fst ` set (own_entries item) \<and> ''id'' \<notin> fst ` set (own_entries item')"
  let ?st1 = "snd (lsdb_insert rnd pre b item st)"
  let ?st2 = "run_ops rnd pre ?st1 ops"
  have "uuid_calls st < uuid_calls ?st1" by (simp add: uuid_calls_insert)
  also have "\<dots> \<le> uuid_calls ?st2" by (rule uuid_calls_run_ops)
  finally have "rnd (uuid_calls st) \<noteq> rnd (uuid_calls ?st2)"
    using a by (auto dest: injD)
  with a show "obj_get (fst (lsdb_insert rnd pre b item st)) ''id'' \<noteq>
        obj_get (fst (lsdb_insert rnd pre b' item' ?st2)) ''id''"
    by (simp add: insert_assigned_id)
next
  assume a: "inj rnd \<and> ''id'' \<notin> fst ` set (own_entries item) \<and>
        (\<forall>d\<in>set (load pre b st). \<exists>m<uuid_calls st. obj_get d ''id'' = JStr (rnd m))"
  show "\<forall>d\<in>set (load pre b st).
           obj_get d ''id'' \<noteq> obj_get (fst (lsdb_insert rnd pre b item st)) ''id''"
  proof
    fix d assume "d \<in> set (load pre b st)"
    with a obtain m where m: "m < uuid_calls st" "obj_get d ''id'' = JStr (rnd m)" by blast
    from m(1) a have "rnd m \<noteq> rnd (uuid_calls st)" by (auto dest: injD)
    with m(2) a show "obj_get d ''id'' \<noteq> obj_get (fst (lsdb_insert rnd pre b item st)) ''id''"
      by (simp add: insert_assigned_id)
  qed
qed

lemma inj_sample_uuid: "inj sample_uuid"
  by (simp add: inj_on_def sample_uuid_def)

theorem insert_ids_witness:
  "inj sample_uuid
   \<and> ''id'' \<notin> fst ` set (own_entries anna)
   \<and> obj_get (fst (lsdb_insert sample_uuid lsdbInstance ''users'' anna empty_env)) ''id'' = JStr ''u''
   \<and> obj_get (fst (lsdb_insert sample_uuid lsdbInstance ''users'' anna
        (run_ops sample_uuid lsdbInstance
           (snd (lsdb_insert sample_uuid lsdbInstance ''users'' anna empty_env))
           [OpDelete ''users'' (JStr ''u'')]))) ''id'' \<noteq> JStr ''u''
   \<and> distinct (map fst (own_entries (JObj [(''id'', JStr ''a'')])))
   \<and> (''id'', JStr ''a'') \<in> set (own_entries (JObj [(''id'', JStr ''a'')]))
   \<and> obj_get (fst (lsdb_insert sample_uuid lsdbInstance ''users'' (JObj [(''id'', JStr ''a'')])
        empty_env)) ''id'' = JStr ''a''"
proof -
  have h: "''id'' \<notin> fst ` set (own_entries anna)" by (simp add: anna_def)
  note T = insert_ids [where rnd = sample_uuid and pre = lsdbInstance and b = "''users''"
      and st = empty_env]
  have a: "obj_get (fst (lsdb_insert sample_uuid lsdbInstance ''users'' anna empty_env)) ''id'' = JStr ''u''"
    using T [where item = anna, THEN conjunct1] h
    by (simp add: empty_env_def sample_uuid_values)
  have b: "obj_get (fst (lsdb_insert sample_uuid lsdbInstance ''users'' anna empty_env)) ''id'' \<noteq>
      obj_get (fst (lsdb_insert sample_uuid lsdbInstance ''users'' anna
        (run_ops sample_uuid lsdbInstance
           (snd (lsdb_insert sample_uuid lsdbInstance ''users'' anna empty_env))
           [OpDelete ''users'' (JStr ''u'')]))) ''id''"
    using T [where item = anna and item' = anna and b' = "''users''"
        and ops = "[OpDelete ''users'' (JStr ''u'')]", THEN conjunct2, THEN conjunct2, THEN conjunct2,
        THEN conjunct1] h inj_sample_uuid
    by blast
  have c: "obj_get (fst (lsdb_insert sample_uuid lsdbInstance ''users'' (JObj [(''id'', JStr ''a'')])
        empty_env)) ''id'' = JStr ''a''"
    using T [where item = "JObj [(''id'', JStr ''a'')]" and v = "JStr ''a''", THEN conjunct2, THEN conjunct1]
    by simp
  from a b have b': "obj_get (fst (lsdb_insert sample_uuid lsdbInstance ''users'' anna
        (run_ops sample_uuid lsdbInstance
           (snd (lsdb_insert sample_uuid lsdbInstance ''users'' anna empty_env))
           [OpDelete ''users'' (JStr ''u'')]))) ''id'' \<noteq> JStr ''u''"
    by auto
  show ?thesis using inj_sample_uuid h a b' c by simp
qed

text \<open>
  C6 as stated fails for supplied ids: inserting the same supplied id twice leaves two
  documents with that id in the bucket.
\<close>

theorem insert_duplicate_id:
  "map (\<lambda>d. obj_get d ''id'')
     (load lsdbInstance ''users''
        (snd (lsdb_insert sample_uuid lsdbInstance ''users'' (JObj [(''id'', JStr ''a'')])
           (snd (lsdb_insert sample_uuid lsdbInstance ''users'' (JObj [(''id'', JStr ''a'')])
              empty_env)))))
   = [JStr ''a'', JStr ''a'']"
  by (simp add: lsdb_insert_def bucket_accessor_def ensure_def load_def save_def getItem_def
      key_def lsdbInstance_def empty_env_def spread_def json_doc_def obj_get_def Let_def)

section \<open>Properties of dump and import\<close>

lemma json_norm_undef: "json_norm v = JUndefined \<longleftrightarrow> v = JUndefined"
  by (cases v) auto

lemma json_norm_idem: "json_norm (json_norm v) = json_norm v"
proof (induction v)
  case (JArr xs)
  then show ?case by (auto simp: json_norm_undef)
next
  case (JObj kvs)
  have "\<And>p. p \<in> set kvs \<Longrightarrow> json_norm (json_norm (snd p)) = json_norm (snd p)"
    using JObj by (auto simp: snds.simps)
  then show ?case
    by (auto simp: json_norm_undef filter_map o_def filter_id_conv)
qed simp_all

lemma json_doc_idem: "json_doc (json_doc d) = json_doc d"
  using json_norm_idem [of "JObj d"] by (simp add: json_doc_def)

lemma json_norm_JObj: "json_norm (JObj d) = JObj (json_doc d)"
  by (simp add: json_doc_def)


lemma keys_obj_set: "fst ` set (obj_set d k v) = insert k (fst ` set d)"
  by (induction d) auto

lemma distinct_obj_set: "distinct (map fst d) \<Longrightarrow> distinct (map fst (obj_set d k v))"
  by (induction d) (auto simp: keys_obj_set)

lemma distinct_fold_obj_set:
  "distinct (map fst base) \<Longrightarrow>
   distinct (map fst (foldl (\<lambda>acc p. obj_set acc (fst p) (snd p)) base es))"
  by (induction es arbitrary: base) (auto simp: distinct_obj_set)

lemma map_of_rev_distinct: "distinct (map fst xs) \<Longrightarrow> map_of (rev xs) = map_of xs"
proof (rule ext)
  fix k
  assume d: "distinct (map fst xs)"
  show "map_of (rev xs) k = map_of xs k"
  proof (cases "map_of xs k")
    case None
    then have "k \<notin> fst ` set xs" by (simp add: map_of_eq_None_iff)
    then have "map_of (rev xs) k = None" by (simp add: map_of_eq_None_iff)
    with None show ?thesis by simp
  next
    case (Some v)
    then have "(k, v) \<in> set (rev xs)" by (auto dest: map_of_SomeD)
    moreover have "distinct (map fst (rev xs))" using d by (simp add: rev_map [symmetric])
    ultimately have "map_of (rev xs) k = Some v" by (rule map_of_is_SomeI [rotated])
    with Some show ?thesis by simp
  qed
qed

lemma map_of_json_doc:
  "distinct (map fst xs) \<Longrightarrow>
   map_of (json_doc xs) k =
     (case map_of xs k of
        None \<Rightarrow> None
      | Some v \<Rightarrow> if v = JUndefined then None else Some (json_norm v))"
proof (induction xs)
  case Nil
  then show ?case by (simp add: json_doc_def)
next
  case (Cons p xs)
  then have ih: "map_of (json_doc xs) k =
     (case map_of xs k of None \<Rightarrow> None
      | Some v \<Rightarrow> if v = JUndefined then None else Some (json_norm v))"
    by simp
  have tail: "json_doc (p # xs) =
     (if snd p \<noteq> JUndefined then (fst p, json_norm (snd p)) # json_doc xs else json_doc xs)"
    by (simp add: json_doc_def)
  show ?case
  proof (cases "fst p = k")
    case True
    with Cons.prems have "map_of xs k = None"
      by (auto simp: map_of_eq_None_iff)
    with True ih tail show ?thesis by auto
  next
    case False
    with ih tail show ?thesis by auto
  qed
qed

lemma reimported_same_fields:
  assumes "wf_doc d"
  shows "same_fields (json_doc (spread [(''id'', JStr u)] (JObj d))) d"
proof -
  let ?r = "spread [(''id'', JStr u)] (JObj d)"
  from assms have dist: "distinct (map fst d)" and nf: "json_doc d = d"
    and ident: "map_of d ''id'' \<noteq> None"
    unfolding wf_doc_def by blast+
  have dr: "distinct (map fst ?r)"
    unfolding spread_def by (rule distinct_fold_obj_set) simp
  have mr: "map_of ?r = map_of d"
  proof (rule ext)
    fix k
    show "map_of ?r k = map_of d k"
      using ident
      by (cases "map_of d k")
        (auto simp: spread_def map_of_fold_obj_set map_of_rev_distinct [OF dist])
  qed
  have "map_of (json_doc ?r) = map_of (json_doc d)"
    by (rule ext) (simp add: map_of_json_doc [OF dr] map_of_json_doc [OF dist] mr)
  with nf show ?thesis by (simp add: same_fields_def)
qed

lemma map_of_removeItem: "map_of (removeItem ls k) k' = (if k' = k then None else map_of ls k')"
  unfolding removeItem_def by (induction ls) auto

lemma load_deleteBucket:
  "load pre b' (deleteBucket pre b st) = (if b' = b then [] else load pre b' st)"
  by (simp add: load_def deleteBucket_def getItem_def map_of_removeItem key_inject)

lemma load_createBucket: "load pre b' (createBucket pre b st) = load pre b' st"
  by (simp add: createBucket_def load_ensure_other)

lemma load_uuid_calls: "load pre b (st\<lparr>uuid_calls := n\<rparr>) = load pre b st"
  by (simp add: load_def)

lemma load_insert_other:
  "b' \<noteq> b \<Longrightarrow> load pre b' (snd (lsdb_insert rnd pre b item st)) = load pre b' st"
  by (simp add: lsdb_insert_def bucket_accessor_def Let_def load_save load_ensure_other
      load_uuid_calls)

lemma load_inserts_other:
  "b' \<noteq> b \<Longrightarrow>
   load pre b' (foldl (\<lambda>s item. snd (lsdb_insert rnd pre b item s)) st items) = load pre b' st"
  by (induction items arbitrary: st) (auto simp: load_insert_other)

lemma load_import_bucket_other:
  "b' \<noteq> fst entry \<Longrightarrow> load lsdbInstance b' (import_bucket rnd ow st entry) = load lsdbInstance b' st"
  by (simp add: import_bucket_def Let_def load_inserts_other load_createBucket load_deleteBucket)

lemma load_import_other:
  "b' \<notin> fst ` set data \<Longrightarrow>
   load lsdbInstance b' (foldl (import_bucket rnd ow) st data) = load lsdbInstance b' st"
  by (induction data arbitrary: st) (auto simp: load_import_bucket_other)

lemma load_inserts_self:
  assumes "map json_doc (load pre b st) = load pre b st"
  shows "\<exists>ds. load pre b (foldl (\<lambda>s item. snd (lsdb_insert rnd pre b item s)) st items) =
           load pre b st @ ds \<and> list_all2 reimported ds items"
  using assms
proof (induction items arbitrary: st)
  case Nil
  then show ?case by simp
next
  case (Cons item items)
  let ?st1 = "snd (lsdb_insert rnd pre b item st)"
  let ?x = "fst (lsdb_insert rnd pre b item st)"
  have l1: "load pre b ?st1 = load pre b st @ [json_doc ?x]"
    using Cons.prems by (simp add: insert_appends)
  have "map json_doc (load pre b ?st1) = load pre b ?st1"
    using Cons.prems by (simp add: l1 json_doc_idem)
  from Cons.IH [OF this] obtain ds where
    ds: "load pre b (foldl (\<lambda>s item. snd (lsdb_insert rnd pre b item s)) ?st1 items) =
          load pre b ?st1 @ ds" "list_all2 reimported ds items"
    by blast
  have "reimported (json_doc ?x) item"
    unfolding reimported_def lsdb_insert_def bucket_accessor_def Let_def fst_conv by blast
  with ds l1 show ?case
    by (intro exI [of _ "json_doc ?x # ds"]) simp
qed

lemma load_import_bucket_self:
  "\<exists>ds. load lsdbInstance b (import_bucket rnd True st (b, items)) = ds \<and> list_all2 reimported ds items"
proof -
  let ?st1 = "createBucket lsdbInstance b (deleteBucket lsdbInstance b st)"
  have e: "load lsdbInstance b ?st1 = []"
    by (simp add: load_createBucket load_deleteBucket)
  then have "map json_doc (load lsdbInstance b ?st1) = load lsdbInstance b ?st1" by simp
  from load_inserts_self [OF this, of rnd items] e show ?thesis
    by (simp add: import_bucket_def Let_def)
qed

lemma load_import_self:
  assumes "distinct (map fst data)" "(b, items) \<in> set data"
  shows "list_all2 reimported (load lsdbInstance b (foldl (import_bucket rnd True) st data)) items"
  using assms
proof (induction data arbitrary: st)
  case Nil
  then show ?case by simp
next
  case (Cons entry data)
  show ?case
  proof (cases "(b, items) = entry")
    case True
    with Cons.prems have "b \<notin> fst ` set data" by force
    then have "load lsdbInstance b (foldl (import_bucket rnd True) (import_bucket rnd True st entry) data)
        = load lsdbInstance b (import_bucket rnd True st (b, items))"
      using True by (simp add: load_import_other)
    with load_import_bucket_self [of b rnd st items] show ?thesis by simp
  next
    case False
    with Cons.prems have "(b, items) \<in> set data" "distinct (map fst data)" by auto
    from Cons.IH [OF this(2) this(1)] show ?thesis by simp
  qed
qed

lemma obj_set_absent: "k \<notin> fst ` set d \<Longrightarrow> obj_set d k v = d @ [(k, v)]"
  by (induction d) auto

lemma fold_obj_set_distinct:
  "distinct (map fst (acc @ es)) \<Longrightarrow>
   foldl (\<lambda>acc p. obj_set acc (fst p) (snd p)) acc es = acc @ es"
proof (induction es arbitrary: acc)
  case Nil
  then show ?case by simp
next
  case (Cons e es)
  from Cons.prems have "fst e \<notin> fst ` set acc" by auto
  then have "obj_set acc (fst e) (snd e) = acc @ [e]" by (simp add: obj_set_absent)
  moreover from Cons.prems have "distinct (map fst ((acc @ [e]) @ es))" by simp
  ultimately show ?case using Cons.IH [of "acc @ [e]"] by simp
qed

lemma reimported_id_first:
  assumes "wf_doc d" "id_first d" "reimported d' (JObj d)"
  shows "d' = d"
proof -
  from assms(2) obtain v rest where d: "d = (''id'', v) # rest"
    by (cases d) (auto simp: id_first_def)
  from assms(1) have dist: "distinct (map fst d)" and nf: "json_doc d = d"
    unfolding wf_doc_def by blast+
  from assms(3) obtain u where u: "d' = json_doc (spread [(''id'', JStr u)] (JObj d))"
    unfolding reimported_def by blast
  have "spread [(''id'', JStr u)] (JObj d) =
      foldl (\<lambda>acc p. obj_set acc (fst p) (snd p)) [(''id'', v)] rest"
    by (simp add: spread_def d)
  also have "\<dots> = [(''id'', v)] @ rest"
    using dist d by (intro fold_obj_set_distinct) simp
  finally show ?thesis using u nf d by simp
qed

lemma reimported_wf:
  assumes "wf_doc d" "reimported d' (JObj d)"
  shows "same_fields d' d"
  using assms reimported_same_fields unfolding reimported_def by blast

lemma distinct_listBuckets:
  assumes "distinct (map fst (localStorage st))"
  shows "distinct (listBuckets pre st)"
proof -
  have "inj_on (drop (length pre)) {k. startsWith k pre}"
  proof (rule inj_onI)
    fix x y assume "x \<in> {k. startsWith k pre}" "y \<in> {k. startsWith k pre}"
      and e: "drop (length pre) x = drop (length pre) y"
    then have "take (length pre) x = take (length pre) y" by (simp add: startsWith_def)
    with e show "x = y" by (metis append_take_drop_id)
  qed
  then have "inj_on (drop (length pre)) (set (filter (\<lambda>k. startsWith k pre) (map fst (localStorage st))))"
    by (rule inj_on_subset) auto
  with assms show ?thesis
    unfolding listBuckets_eq by (simp add: distinct_map)
qed

lemma lsdb_all_existing:
  "b \<in> set (listBuckets pre st) \<Longrightarrow> lsdb_all pre b st = (load pre b st, st)"
  by (simp add: lsdb_all_def bucket_accessor_def ensure_existing Let_def)

lemma dump_fold:
  assumes "set bs \<subseteq> set (listBuckets lsdbInstance st)" "distinct bs" "set bs \<inter> fst ` set acc = {}"
  shows "foldl (\<lambda>acc b. case lsdb_all lsdbInstance b (snd acc) of
                          (data, st') \<Rightarrow>
                            (assign_field (fst acc) b (map (\<lambda>d. json_norm (JObj d)) data), st'))
           (acc, st) bs
         = (acc @ map (\<lambda>b. (b, map (\<lambda>d. json_norm (JObj d)) (load lsdbInstance b st)))
                    (filter (\<lambda>b. b \<noteq> ''__proto__'') bs), st)"
  using assms
proof (induction bs arbitrary: acc)
  case Nil
  then show ?case by simp
next
  case (Cons b bs)
  let ?e = "(b, map (\<lambda>d. json_norm (JObj d)) (load lsdbInstance b st))"
  from Cons.prems have b: "b \<in> set (listBuckets lsdbInstance st)" and nb: "b \<notin> fst ` set acc"
    by auto
  from Cons.prems have bs: "set bs \<subseteq> set (listBuckets lsdbInstance st)" "distinct bs"
    by auto
  show ?case
  proof (cases "b = ''__proto__''")
    case True
    from Cons.prems have "set bs \<inter> fst ` set acc = {}" by auto
    from Cons.IH [OF bs this] True b show ?thesis
      by (simp add: lsdb_all_existing assign_field_def)
  next
    case False
    from nb have "map_of acc b = None" by (simp add: map_of_eq_None_iff)
    then have s: "assign_field acc b (snd ?e) = acc @ [?e]"
      using False by (simp add: assign_field_def setItem_absent)
    from Cons.prems have "set bs \<inter> fst ` set (acc @ [?e]) = {}" by auto
    from Cons.IH [OF bs this] s b False show ?thesis
      by (simp add: lsdb_all_existing)
  qed
qed

lemma dump_all:
  assumes "distinct (map fst (localStorage st))"
  shows "lsdb_dump None st =
    (map (\<lambda>b. (b, map (\<lambda>d. json_norm (JObj d)) (load lsdbInstance b st)))
       (filter (\<lambda>b. b \<noteq> ''__proto__'') (listBuckets lsdbInstance st)), st)"
  using dump_fold [of "listBuckets lsdbInstance st" st "[]"] distinct_listBuckets [OF assms]
  by (simp add: lsdb_dump_def)

lemma keys_removeItem: "fst ` set (removeItem ls k) = fst ` set ls - {k}"
  unfolding removeItem_def by (induction ls) auto

lemma keys_insert:
  "fst ` set (localStorage (snd (lsdb_insert rnd pre b item st))) =
     insert (key pre b) (fst ` set (localStorage st))"
  by (simp add: lsdb_insert_def bucket_accessor_def Let_def save_def keys_setItem ensure_keys)

lemma keys_inserts:
  "key pre b \<in> fst ` set (localStorage st) \<Longrightarrow>
   fst ` set (localStorage (foldl (\<lambda>s item. snd (lsdb_insert rnd pre b item s)) st items)) =
     fst ` set (localStorage st)"
proof (induction items arbitrary: st)
  case Nil
  then show ?case by simp
next
  case (Cons item items)
  let ?st1 = "snd (lsdb_insert rnd pre b item st)"
  from Cons.prems have k: "fst ` set (localStorage ?st1) = fst ` set (localStorage st)"
    by (simp add: keys_insert insert_absorb)
  with Cons.prems have "key pre b \<in> fst ` set (localStorage ?st1)" by simp
  from Cons.IH [OF this] k show ?case by simp
qed

lemma keys_import_bucket:
  "fst ` set (localStorage (import_bucket rnd True st entry)) =
     insert (key lsdbInstance (fst entry)) (fst ` set (localStorage st))"
proof -
  let ?st1 = "createBucket lsdbInstance (fst entry) (deleteBucket lsdbInstance (fst entry) st)"
  have k: "fst ` set (localStorage ?st1) =
      insert (key lsdbInstance (fst entry)) (fst ` set (localStorage st))"
    by (simp add: createBucket_def ensure_keys deleteBucket_def keys_removeItem)
  then have "key lsdbInstance (fst entry) \<in> fst ` set (localStorage ?st1)" by simp
  from keys_inserts [OF this, of rnd "snd entry"] k show ?thesis
    by (simp add: import_bucket_def Let_def)
qed

lemma keys_import:
  "fst ` set (localStorage (foldl (import_bucket rnd True) st data)) =
     fst ` set (localStorage st) \<union> key lsdbInstance ` fst ` set data"
proof (induction data arbitrary: st)
  case Nil
  then show ?case by simp
next
  case (Cons entry data)
  show ?case
    unfolding foldl_Cons Cons.IH keys_import_bucket by simp
qed

lemma listed_import:
  "b \<in> fst ` set data \<Longrightarrow>
   b \<in> set (listBuckets lsdbInstance (foldl (import_bucket rnd True) st data))"
  unfolding listBuckets_member set_map keys_import by simp

lemma uuid_calls_inserts:
  "uuid_calls (foldl (\<lambda>s item. snd (lsdb_insert rnd pre b item s)) st items) =
     uuid_calls st + length items"
  by (induction items arbitrary: st) (simp_all add: uuid_calls_insert)

lemma uuid_calls_import_bucket:
  "uuid_calls (import_bucket rnd ow st entry) = uuid_calls st + length (snd entry)"
  by (simp add: import_bucket_def Let_def uuid_calls_inserts createBucket_def deleteBucket_def
      uuid_calls_ensure)

lemma uuid_calls_import:
  "uuid_calls (foldl (import_bucket rnd ow) st data) =
     uuid_calls st + sum_list (map (\<lambda>entry. length (snd entry)) data)"
  by (induction data arbitrary: st) (simp_all add: uuid_calls_import_bucket)

lemma reimported_list:
  assumes "list_all wf_doc ds" "list_all2 reimported L (map JObj ds)"
  shows "list_all2 same_fields L ds
    \<and> map (\<lambda>d. obj_get d ''id'') L = map (\<lambda>d. obj_get d ''id'') ds
    \<and> (list_all id_first ds \<longrightarrow> L = ds)"
  using assms
proof (induction ds arbitrary: L)
  case Nil
  then show ?case by simp
next
  case (Cons d ds)
  from Cons.prems(2) obtain d' L' where L: "L = d' # L'" "reimported d' (JObj d)"
    "list_all2 reimported L' (map JObj ds)"
    by (cases L) auto
  from Cons.prems(1) have wf: "wf_doc d" "list_all wf_doc ds" by simp_all
  from reimported_wf [OF wf(1) L(2)] have sf: "same_fields d' d" .
  then have ident: "obj_get d' ''id'' = obj_get d ''id''"
    by (simp add: same_fields_def obj_get_def)
  have first: "id_first d \<longrightarrow> d' = d"
    using reimported_id_first [OF wf(1) _ L(2)] by blast
  from Cons.IH [OF wf(2) L(3)] sf ident first L(1) show ?case by simp
qed

text \<open>
  C7, as the code has it. Take a store whose documents all carry an id, and one of its
  buckets, whatever its name but \<^verbatim>\<open>__proto__\<close>. \<^verbatim>\<open>dump\<close>, of every bucket or of that one,
  changes nothing, and the snapshot holds the documents of the bucket under its name.
  \<^verbatim>\<open>import\<close> of the snapshot with overwrite, into the store dumped or into any other
  state \<open>target\<close>, leaves the bucket listed and holding, in place of what \<open>target\<close> had
  there, the dumped documents in their order, each with the id and the fields and values
  it had; with the id as first field, as \<^verbatim>\<open>insert\<close> lays a document out, the bucket is
  identical. A bucket that the snapshot does not name keeps its documents, and every
  document inserted again takes one call of \<^verbatim>\<open>crypto.randomUUID()\<close>, whose value the
  document's own id replaces.
\<close>

theorem dump_import_roundtrip:
  assumes "wf_store st" "b \<in> set (listBuckets lsdbInstance st)" "b \<noteq> ''__proto__''"
    "bn = None \<or> bn = Some b"
  shows "snd (lsdb_dump bn st) = st
    \<and> map_of (fst (lsdb_dump bn st)) b = Some (map JObj (load lsdbInstance b st))
    \<and> b \<in> set (listBuckets lsdbInstance
                (lsdb_import rnd (Some (fst (lsdb_dump bn st))) True target))
    \<and> list_all2 same_fields
         (load lsdbInstance b (lsdb_import rnd (Some (fst (lsdb_dump bn st))) True target))
         (load lsdbInstance b st)
    \<and> map (\<lambda>d. obj_get d ''id'')
         (load lsdbInstance b (lsdb_import rnd (Some (fst (lsdb_dump bn st))) True target))
       = map (\<lambda>d. obj_get d ''id'') (load lsdbInstance b st)
    \<and> (list_all id_first (load lsdbInstance b st) \<longrightarrow>
         load lsdbInstance b (lsdb_import rnd (Some (fst (lsdb_dump bn st))) True target)
         = load lsdbInstance b st)
    \<and> (b' \<notin> fst ` set (fst (lsdb_dump bn st)) \<longrightarrow>
         load lsdbInstance b' (lsdb_import rnd (Some (fst (lsdb_dump bn st))) True target)
         = load lsdbInstance b' target)
    \<and> uuid_calls (lsdb_import rnd (Some (fst (lsdb_dump bn st))) True target)
       = uuid_calls target
         + sum_list (map (\<lambda>entry. length (snd entry)) (fst (lsdb_dump bn st)))"
proof -
  let ?bs = "filter (\<lambda>b. b \<noteq> ''__proto__'') (listBuckets lsdbInstance st)"
  let ?entry = "\<lambda>b. (b, map (\<lambda>d. json_norm (JObj d)) (load lsdbInstance b st))"
  let ?ds = "load lsdbInstance b st"
  from assms(1) have dk: "distinct (map fst (localStorage st))"
    and wf: "list_all wf_doc ?ds"
    using assms(2) unfolding wf_store_def by blast+
  have items: "map (\<lambda>d. json_norm (JObj d)) ?ds = map JObj ?ds"
  proof (rule map_cong [OF refl])
    fix d assume "d \<in> set ?ds"
    with wf have "json_doc d = d" by (simp add: list_all_iff wf_doc_def)
    then show "json_norm (JObj d) = JObj d" by (simp only: json_norm_JObj)
  qed
  have all: "lsdb_dump None st = (map ?entry ?bs, st)"
    by (rule dump_all [OF dk])
  have one: "lsdb_dump (Some b) st = (if b = [] then map ?entry ?bs else [?entry b], st)"
    using dump_fold [of "[b]" st "[]"] assms(2,3) all by (simp add: lsdb_dump_def)
  obtain data where dump: "lsdb_dump bn st = (data, st)"
    and data: "data = map ?entry ?bs \<or> data = [?entry b]"
    using assms(4) all one by (cases "b = []") auto
  from data have dist: "distinct (map fst data)"
    using distinct_listBuckets [OF dk, of lsdbInstance] by (auto simp: o_def)
  from data have mem: "(b, map JObj ?ds) \<in> set data"
    using assms(2,3) items by (auto simp: image_iff)
  let ?after = "foldl (import_bucket rnd True) target data"
  have snap: "map_of data b = Some (map JObj ?ds)"
    using dist mem by (rule map_of_is_SomeI)
  from mem have "b \<in> fst ` set data" by (rule image_eqI [rotated]) simp
  then have listed: "b \<in> set (listBuckets lsdbInstance ?after)"
    by (rule listed_import)
  have "list_all2 reimported (load lsdbInstance b ?after) (map JObj ?ds)"
    using dist mem by (rule load_import_self)
  from reimported_list [OF wf this]
  have same: "list_all2 same_fields (load lsdbInstance b ?after) ?ds"
    and ids: "map (\<lambda>d. obj_get d ''id'') (load lsdbInstance b ?after)
        = map (\<lambda>d. obj_get d ''id'') ?ds"
    and first: "list_all id_first ?ds \<longrightarrow> load lsdbInstance b ?after = ?ds"
    by blast+
  have other: "b' \<notin> fst ` set data \<longrightarrow> load lsdbInstance b' ?after = load lsdbInstance b' target"
    by (simp add: load_import_other)
  have calls: "uuid_calls ?after
      = uuid_calls target + sum_list (map (\<lambda>entry. length (snd entry)) data)"
    by (rule uuid_calls_import)
  from snap listed same ids first other calls show ?thesis
    unfolding dump lsdb_import_def fst_conv snd_conv option.case by (intro conjI) simp_all
qed

lemma employee_store_wf: "wf_store (employee_store sample_uuid)"
  unfolding employee_store_value
  by (simp add: wf_store_def wf_doc_def listBuckets_def lsdbInstance_def startsWith_def
      load_def getItem_def key_def stored_employee_def json_doc_def)

lemma archive_store_value:
  "archive_store =
     \<lparr>localStorage =
        [(''APP_employee'', [[(''id'', JStr ''u''), (''name'', JStr ''Zed'')]]),
         (''APP_orders'', [[(''id'', JStr ''uu''), (''item'', JStr ''pen'')]])],
      uuid_calls = 2\<rparr>"
  by (simp add: archive_store_def lsdb_insert_def bucket_accessor_def ensure_def load_def
      save_def getItem_def key_def lsdbInstance_def empty_env_def spread_def json_doc_def
      sample_uuid_def Let_def eval_nat_numeral)

theorem dump_import_roundtrip_witness:
  "wf_store (employee_store sample_uuid)
   \<and> ''employee'' \<in> set (listBuckets lsdbInstance (employee_store sample_uuid))
   \<and> list_all id_first (load lsdbInstance ''employee'' (employee_store sample_uuid))
   \<and> load lsdbInstance ''employee'' archive_store = [[(''id'', JStr ''u''), (''name'', JStr ''Zed'')]]
   \<and> load lsdbInstance ''employee''
        (lsdb_import sample_uuid (Some (fst (lsdb_dump None (employee_store sample_uuid)))) True
           archive_store)
      = [stored_employee ''u'' ''Alice'' ''London'' ''IT'' 28,
         stored_employee ''uu'' ''Bob'' ''Paris'' ''HR'' 35,
         stored_employee ''uuu'' ''Charlie'' ''London'' ''HR'' 40,
         stored_employee ''uuuu'' ''David'' ''London'' ''IT'' 22]
   \<and> ''employee'' \<in> set (listBuckets lsdbInstance
        (lsdb_import sample_uuid (Some (fst (lsdb_dump None (employee_store sample_uuid)))) True
           archive_store))
   \<and> map fst (fst (lsdb_dump None (employee_store sample_uuid))) = [''employee'']
   \<and> load lsdbInstance ''orders''
        (lsdb_import sample_uuid (Some (fst (lsdb_dump None (employee_store sample_uuid)))) True
           archive_store)
      = [[(''id'', JStr ''uu''), (''item'', JStr ''pen'')]]
   \<and> uuid_calls
        (lsdb_import sample_uuid (Some (fst (lsdb_dump None (employee_store sample_uuid)))) True
           archive_store) = 6"
proof -
  let ?snap = "fst (lsdb_dump None (employee_store sample_uuid))"
  let ?after = "lsdb_import sample_uuid (Some ?snap) True archive_store"
  have b: "''employee'' \<in> set (listBuckets lsdbInstance (employee_store sample_uuid))"
    unfolding employee_store_value by (simp add: listBuckets_def lsdbInstance_def startsWith_def)
  have p: "''employee'' \<noteq> ''__proto__''" by simp
  have f: "list_all id_first (load lsdbInstance ''employee'' (employee_store sample_uuid))"
    by (simp add: employee_load stored_employee_def id_first_def)
  have z: "load lsdbInstance ''employee'' archive_store
      = [[(''id'', JStr ''u''), (''name'', JStr ''Zed'')]]"
    unfolding archive_store_value by (simp add: load_def getItem_def key_def lsdbInstance_def)
  have o: "load lsdbInstance ''orders'' archive_store
      = [[(''id'', JStr ''uu''), (''item'', JStr ''pen'')]]"
    unfolding archive_store_value by (simp add: load_def getItem_def key_def lsdbInstance_def)
  have c: "uuid_calls archive_store = 2"
    unfolding archive_store_value by simp
  have dk: "distinct (map fst (localStorage (employee_store sample_uuid)))"
    using employee_store_wf by (simp add: wf_store_def)
  have listing: "listBuckets lsdbInstance (employee_store sample_uuid) = [''employee'']"
    unfolding employee_store_value by (simp add: listBuckets_def lsdbInstance_def startsWith_def)
  have snapshot: "?snap = [(''employee'',
      map (\<lambda>d. json_norm (JObj d)) (load lsdbInstance ''employee'' (employee_store sample_uuid)))]"
    by (simp only: dump_all [OF dk] fst_conv listing) simp
  have names: "map fst ?snap = [''employee'']"
    by (simp only: snapshot) simp
  have sizes: "map (\<lambda>entry. length (snd entry)) ?snap = [4]"
    by (simp only: snapshot) (simp add: employee_load)
  from names have n: "''orders'' \<notin> fst ` set ?snap"
    unfolding set_map [symmetric] by simp
  note r = dump_import_roundtrip [OF employee_store_wf b p, of None sample_uuid archive_store
      "''orders''"]
  from r f have e: "load lsdbInstance ''employee'' ?after
      = load lsdbInstance ''employee'' (employee_store sample_uuid)"
    by blast
  from r have l: "''employee'' \<in> set (listBuckets lsdbInstance ?after)"
    by blast
  from r n have k: "load lsdbInstance ''orders'' ?after = load lsdbInstance ''orders'' archive_store"
    by blast
  from r have u: "uuid_calls ?after
      = uuid_calls archive_store + sum_list (map (\<lambda>entry. length (snd entry)) ?snap)"
    by blast
  from employee_store_wf b f z e l names k o u c sizes show ?thesis
    by (simp add: employee_load sample_uuid_values)
qed

text \<open>
  A document stored without an id does not come back as it was: \<^verbatim>\<open>insert\<close> of an item
  whose \<^verbatim>\<open>id\<close> is \<^verbatim>\<open>undefined\<close> stores the item without the field, the snapshot holds it so,
  and \<^verbatim>\<open>import\<close> gives it the id of a new call of \<^verbatim>\<open>crypto.randomUUID()\<close>.
\<close>

theorem dump_import_assigns_id:
  "load lsdbInstance ''users'' idless_store = [[(''name'', JStr ''x'')]]
   \<and> fst (lsdb_dump None idless_store) = [(''users'', [JObj [(''name'', JStr ''x'')]])]
   \<and> load lsdbInstance ''users''
        (lsdb_import sample_uuid (Some (fst (lsdb_dump None idless_store))) True idless_store)
      = [[(''id'', JStr ''uu''), (''name'', JStr ''x'')]]"
proof -
  have v: "idless_store = \<lparr>localStorage = [(''APP_users'', [[(''name'', JStr ''x'')]])], uuid_calls = 1\<rparr>"
    by (simp add: idless_store_def lsdb_insert_def bucket_accessor_def ensure_def load_def
        save_def getItem_def key_def lsdbInstance_def empty_env_def spread_def json_doc_def
        sample_uuid_def Let_def)
  have l: "load lsdbInstance ''users'' idless_store = [[(''name'', JStr ''x'')]]"
    unfolding v by (simp add: load_def getItem_def key_def lsdbInstance_def)
  have d: "lsdb_dump None idless_store = ([(''users'', [JObj [(''name'', JStr ''x'')]])], idless_store)"
    unfolding v
    by (simp add: lsdb_dump_def listBuckets_def lsdbInstance_def startsWith_def lsdb_all_def
        bucket_accessor_def ensure_def load_def getItem_def key_def assign_field_def Let_def)
  have i: "load lsdbInstance ''users''
        (lsdb_import sample_uuid (Some [(''users'', [JObj [(''name'', JStr ''x'')]])]) True idless_store)
      = [[(''id'', JStr ''uu''), (''name'', JStr ''x'')]]"
    unfolding v
    by (simp add: lsdb_import_def import_bucket_def createBucket_def deleteBucket_def
        removeItem_def lsdb_insert_def bucket_accessor_def ensure_def load_def save_def
        getItem_def key_def lsdbInstance_def spread_def json_doc_def sample_uuid_def Let_def
        eval_nat_numeral)
  from l d i show ?thesis by simp
qed

section \<open>Properties of the filters\<close>

text \<open>
  C5, as the code has it. \<^verbatim>\<open>IDb.filter\<close> keeps a stored record exactly when, for every key of
  the filter object, the value resolved from the record along the dot-path is loosely equal
  to the filter's value. \<^verbatim>\<open>LSDB\<close>'s \<^verbatim>\<open>filterBy\<close> keeps a stored document exactly when, for
  every pair of the filter object, the document's own field of that name is strictly equal
  to the value: the key is not split into a path and nothing is coerced. In both, all pairs
  are ANDed.
\<close>

theorem filter_matching:
  "(map_of db b = Some os \<longrightarrow>
      IDb_filter db b filterObj =
        Inr (filter (\<lambda>item. \<forall>k\<in>fst ` set filterObj.
                      loose_eq (resolve (JObj item) k) (obj_get filterObj k)) (records os)))
   \<and> resolve v path = foldl filter_step v (split_dot path)
   \<and> fst (filterBy pre b props st) =
        filter (\<lambda>item. \<forall>p\<in>set props. strict_eq (obj_get item (fst p)) (snd p)) (load pre b st)"
proof (intro conjI impI)
  assume "map_of db b = Some os"
  then show "IDb_filter db b filterObj =
        Inr (filter (\<lambda>item. \<forall>k\<in>fst ` set filterObj.
                      loose_eq (resolve (JObj item) k) (obj_get filterObj k)) (records os))"
    by (simp add: IDb_filter_def IDb_getAll_def getStore_def list_all_iff)
next
  show "resolve v path = foldl filter_step v (split_dot path)"
    by (simp add: resolve_def)
next
  show "fst (filterBy pre b props st) =
        filter (\<lambda>item. \<forall>p\<in>set props. strict_eq (obj_get item (fst p)) (snd p)) (load pre b st)"
    by (simp add: filterBy_def bucket_accessor_def load_ensure Let_def list_all_iff)
qed

theorem filter_matching_witness:
  "map_of db_staff ''employee'' = Some \<lparr>records =
          [(''id'', JNum 1) # own_entries (employee ''Alice'' ''London'' ''IT'' 28),
           (''id'', JNum 2) # own_entries (employee ''Bob'' ''Paris'' ''HR'' 35)],
        current_number = 3\<rparr>
   \<and> IDb_filter db_staff ''employee'' [(''address.city'', JStr ''London''), (''age'', JStr ''28'')]
       = Inr [(''id'', JNum 1) # own_entries (employee ''Alice'' ''London'' ''IT'' 28)]
   \<and> fst (filterBy lsdbInstance ''employee'' [(''group'', JStr ''HR'')] (employee_store sample_uuid))
       = [stored_employee (sample_uuid 1) ''Bob'' ''Paris'' ''HR'' 35,
          stored_employee (sample_uuid 2) ''Charlie'' ''London'' ''HR'' 40]"
proof -
  have m: "map_of db_staff ''employee'' = Some \<lparr>records =
          [(''id'', JNum 1) # own_entries (employee ''Alice'' ''London'' ''IT'' 28),
           (''id'', JNum 2) # own_entries (employee ''Bob'' ''Paris'' ''HR'' 35)],
        current_number = 3\<rparr>"
    by (simp add: db_staff_def)
  have a: "IDb_filter db_staff ''employee'' [(''address.city'', JStr ''London''), (''age'', JStr ''28'')]
       = Inr [(''id'', JNum 1) # own_entries (employee ''Alice'' ''London'' ''IT'' 28)]"
    unfolding filter_matching [THEN conjunct1, rule_format, OF m]
    by (simp add: employee_def resolve_def obj_get_def loose_eq_def is_object_def
        StringToNumber_def trim_def is_space_def unsigned_decimal_def is_digit_def decimal_val_def
        digit_val_def)
  have b: "fst (filterBy lsdbInstance ''employee'' [(''group'', JStr ''HR'')] (employee_store sample_uuid))
       = [stored_employee (sample_uuid 1) ''Bob'' ''Paris'' ''HR'' 35,
          stored_employee (sample_uuid 2) ''Charlie'' ''London'' ''HR'' 40]"
    unfolding filter_matching [THEN conjunct2, THEN conjunct2]
    by (simp add: employee_load stored_employee_def obj_get_def)
  show ?thesis by (intro conjI m a b)
qed

text \<open>
  C5 as stated fails on \<^verbatim>\<open>filterBy\<close>: Alice is stored with age 28 in London, her resolved
  values are loosely equal to the string 28 and to London, and both filters return nothing.
\<close>

theorem filterBy_counterexample:
  "fst (filterBy lsdbInstance ''employee'' [(''age'', JStr ''28'')] (employee_store sample_uuid)) = []
   \<and> fst (filterBy lsdbInstance ''employee'' [(''address.city'', JStr ''London'')]
        (employee_store sample_uuid)) = []
   \<and> stored_employee (sample_uuid 0) ''Alice'' ''London'' ''IT'' 28
        \<in> set (load lsdbInstance ''employee'' (employee_store sample_uuid))
   \<and> loose_eq (resolve (JObj (stored_employee (sample_uuid 0) ''Alice'' ''London'' ''IT'' 28)) ''age'')
        (JStr ''28'')
   \<and> loose_eq (resolve (JObj (stored_employee (sample_uuid 0) ''Alice'' ''London'' ''IT'' 28))
        ''address.city'') (JStr ''London'')"
proof -
  have a: "fst (filterBy lsdbInstance ''employee'' [(''age'', JStr ''28'')] (employee_store sample_uuid)) = []"
    by (simp add: filterBy_def bucket_accessor_def load_ensure employee_load stored_employee_def
        obj_get_def Let_def)
  have b: "fst (filterBy lsdbInstance ''employee'' [(''address.city'', JStr ''London'')]
        (employee_store sample_uuid)) = []"
    by (simp add: filterBy_def bucket_accessor_def load_ensure employee_load stored_employee_def
        obj_get_def Let_def)
  have c: "stored_employee (sample_uuid 0) ''Alice'' ''London'' ''IT'' 28
        \<in> set (load lsdbInstance ''employee'' (employee_store sample_uuid))"
    by (simp add: employee_load)
  have d: "loose_eq (resolve (JObj (stored_employee (sample_uuid 0) ''Alice'' ''London'' ''IT'' 28)) ''age'')
        (JStr ''28'')"
    by (simp add: stored_employee_def resolve_def obj_get_def loose_eq_def is_object_def
        StringToNumber_def trim_def is_space_def unsigned_decimal_def is_digit_def decimal_val_def
        digit_val_def)
  have e: "loose_eq (resolve (JObj (stored_employee (sample_uuid 0) ''Alice'' ''London'' ''IT'' 28))
        ''address.city'') (JStr ''London'')"
    by (simp add: stored_employee_def resolve_def obj_get_def loose_eq_def is_object_def
        StringToNumber_def trim_def is_space_def unsigned_decimal_def is_digit_def decimal_val_def
        digit_val_def)
  show ?thesis by (intro conjI a b c d e)
qed

section \<open>Properties of IDb transactions\<close>

lemma run_callback_throw:
  "fst (run_callback bs (cs @ [Throw m])) = fst (run_callback bs cs)"
  by (induction bs cs rule: run_callback.induct) (auto split: sum.splits prod.splits)

lemma transaction_throw_keeps_requests:
  "snd (IDb_transaction db bs (cs @ [Throw m])) = snd (IDb_transaction db bs cs)"
proof -
  obtain rs t where a: "run_callback bs cs = (rs, t)" by (cases "run_callback bs cs")
  obtain rs' t' where b: "run_callback bs (cs @ [Throw m]) = (rs', t')"
    by (cases "run_callback bs (cs @ [Throw m])")
  from run_callback_throw [of bs cs m] a b have "rs' = rs" by simp
  with a b show ?thesis
    by (simp add: IDb_transaction_def split: sum.splits option.splits)
qed

text \<open>
  C8. A transaction whose callback queues operations and then throws must leave none of
  them in effect. The code does not: the callback of the example, with a \<^verbatim>\<open>throw\<close> after its
  two inserts, rejects the promise with the error while both buckets, empty before, hold
  the inserted document afterwards.
\<close>

theorem transaction_throw_commits:
  "IDb_transaction db_a [''employee'', ''project''] throwing_callback =
     (Inl (JsError ''boom''),
      [(''department'', empty_store),
       (''employee'', \<lparr>records = [charlie @ [(''id'', JNum 1)]], current_number = 2\<rparr>),
       (''project'', \<lparr>records = [project_x @ [(''id'', JNum 1)]], current_number = 2\<rparr>)])
   \<and> IDb_getAll db_a ''employee'' = Inr []
   \<and> IDb_getAll db_a ''project'' = Inr []"
  by (simp add: IDb_transaction_def IDb_getAll_def getStore_def throwing_callback_def db_a_def
      empty_store_def charlie_def project_x_def contains_def extract_key_def store_record_def
      on_store_def obj_get_def has_key_def Let_def)

section \<open>Properties of LSQuery\<close>

lemma mset_insert_sorted: "mset (insert_sorted cmp x ys) = add_mset x (mset ys)"
  by (induction ys) auto

lemma set_insert_sorted: "set (insert_sorted cmp x ys) = insert x (set ys)"
  by (induction ys) auto

lemma mset_stable_sort: "mset (stable_sort cmp xs) = mset xs"
  by (induction xs) (auto simp: stable_sort_def mset_insert_sorted)

lemma set_stable_sort: "set (stable_sort cmp xs) = set xs"
  using mset_stable_sort [of cmp xs] by (metis set_mset_mset)

lemma sorted_insert_sorted:
  assumes gt: "\<And>a b. a \<in> S \<Longrightarrow> b \<in> S \<Longrightarrow> (0 < cmp a b) = (\<not> R a b)"
    and total: "\<And>a b. a \<in> S \<Longrightarrow> b \<in> S \<Longrightarrow> R a b \<or> R b a"
    and trans: "\<And>a b c. a \<in> S \<Longrightarrow> b \<in> S \<Longrightarrow> c \<in> S \<Longrightarrow> R a b \<Longrightarrow> R b c \<Longrightarrow> R a c"
    and "x \<in> S" "set ys \<subseteq> S" "sorted_wrt R ys"
  shows "sorted_wrt R (insert_sorted cmp x ys)"
  using assms(4-)
proof (induction ys)
  case Nil
  then show ?case by simp
next
  case (Cons y ys)
  show ?case
  proof (cases "0 < cmp x y")
    case True
    with gt Cons.prems have "\<not> R x y" by simp
    with total Cons.prems have yx: "R y x" by auto
    have "sorted_wrt R (insert_sorted cmp x ys)" using Cons by simp
    moreover have "\<forall>z\<in>set (insert_sorted cmp x ys). R y z"
      using yx Cons.prems by (auto simp: set_insert_sorted)
    ultimately show ?thesis using True by simp
  next
    case False
    with gt Cons.prems have xy: "R x y" by simp
    have "\<forall>z\<in>set ys. R x z"
    proof
      fix z assume z: "z \<in> set ys"
      with Cons.prems have "R y z" by simp
      with xy z Cons.prems show "R x z" using trans [of x y z] by auto
    qed
    with xy False Cons.prems show ?thesis by simp
  qed
qed

lemma sorted_stable_sort:
  assumes gt: "\<And>a b. a \<in> S \<Longrightarrow> b \<in> S \<Longrightarrow> (0 < cmp a b) = (\<not> R a b)"
    and total: "\<And>a b. a \<in> S \<Longrightarrow> b \<in> S \<Longrightarrow> R a b \<or> R b a"
    and trans: "\<And>a b c. a \<in> S \<Longrightarrow> b \<in> S \<Longrightarrow> c \<in> S \<Longrightarrow> R a b \<Longrightarrow> R b c \<Longrightarrow> R a c"
    and "set xs \<subseteq> S"
  shows "sorted_wrt R (stable_sort cmp xs)"
  using assms(4)
proof (induction xs)
  case Nil
  then show ?case by (simp add: stable_sort_def)
next
  case (Cons x xs)
  have "sorted_wrt R (insert_sorted cmp x (stable_sort cmp xs))"
  proof (rule sorted_insert_sorted [where S = S])
    show "\<And>a b. a \<in> S \<Longrightarrow> b \<in> S \<Longrightarrow> (0 < cmp a b) = (\<not> R a b)" by (rule gt)
    show "\<And>a b. a \<in> S \<Longrightarrow> b \<in> S \<Longrightarrow> R a b \<or> R b a" by (rule total)
    show "\<And>a b c. a \<in> S \<Longrightarrow> b \<in> S \<Longrightarrow> c \<in> S \<Longrightarrow> R a b \<Longrightarrow> R b c \<Longrightarrow> R a c"
      by (rule trans)
    show "x \<in> S" using Cons.prems by simp
    show "set (stable_sort cmp xs) \<subseteq> S" using Cons.prems by (simp add: set_stable_sort)
    show "sorted_wrt R (stable_sort cmp xs)" using Cons by simp
  qed
  then show ?case by (simp add: stable_sort_def)
qed

lemma filter_insert_sorted:
  assumes "\<And>y. y \<in> set ys \<Longrightarrow> 0 < cmp x y \<Longrightarrow> \<not> (P x \<and> P y)"
  shows "filter P (insert_sorted cmp x ys) = filter P (x # ys)"
  using assms by (induction ys) auto

lemma stable_stable_sort:
  assumes "\<And>a b. 0 < cmp a b \<Longrightarrow> f a \<noteq> f b"
  shows "filter (\<lambda>x. f x = c) (stable_sort cmp xs) = filter (\<lambda>x. f x = c) xs"
proof (induction xs)
  case Nil
  then show ?case by (simp add: stable_sort_def)
next
  case (Cons x xs)
  have "filter (\<lambda>x. f x = c) (insert_sorted cmp x (stable_sort cmp xs))
        = filter (\<lambda>x. f x = c) (x # stable_sort cmp xs)"
  proof (rule filter_insert_sorted)
    fix y
    assume "0 < cmp x y"
    then have "f x \<noteq> f y" by (rule assms)
    then show "\<not> (f x = c \<and> f y = c)" by auto
  qed
  with Cons show ?case by (simp add: stable_sort_def)
qed

lemma js_less_irrefl: "js_less x x \<noteq> Some True"
  by (cases "ToPrimitive x") (auto simp: js_less_def split: option.splits)


lemma is_number_iff: "is_number v \<longleftrightarrow> (\<exists>n. v = JNum n)"
  by (cases v) auto

lemma is_string_iff: "is_string v \<longleftrightarrow> (\<exists>s. v = JStr s)"
  by (cases v) auto

lemma comparable_cases:
  assumes "comparable_keys (map sel xs)"
  shows "(\<forall>x\<in>set xs. \<exists>n. sel x = JNum n) \<or> (\<forall>x\<in>set xs. \<exists>s. sel x = JStr s)"
  using assms by (auto simp: comparable_keys_def list_all_iff is_number_iff is_string_iff)

lemma comparable_pair:
  assumes "(\<forall>x\<in>set xs. \<exists>n. sel x = JNum n) \<or> (\<forall>x\<in>set xs. \<exists>s. sel x = JStr s)"
    and "a \<in> set xs" "b \<in> set xs"
  shows "(\<exists>m n. sel a = JNum m \<and> sel b = JNum n) \<or> (\<exists>s t. sel a = JStr s \<and> sel b = JStr t)"
  using assms by blast

lemma comparable_triple:
  assumes "(\<forall>x\<in>set xs. \<exists>n. sel x = JNum n) \<or> (\<forall>x\<in>set xs. \<exists>s. sel x = JStr s)"
    and "a \<in> set xs" "b \<in> set xs" "c \<in> set xs"
  shows "(\<exists>l m n. sel a = JNum l \<and> sel b = JNum m \<and> sel c = JNum n)
       \<or> (\<exists>s t u. sel a = JStr s \<and> sel b = JStr t \<and> sel c = JStr u)"
  using assms by (elim disjE) (meson)+

lemma js_less_num: "js_less (JNum a) (JNum b) = Some (a < b)"
  by (simp add: js_less_def)

lemma js_less_str: "js_less (JStr a) (JStr b) = Some (a < b)"
  by (simp add: js_less_def)

lemma stable_sort_ascending:
  assumes "comparable_keys (map selector xs)"
  shows "sorted_wrt (\<lambda>a b. js_lte (selector a) (selector b)) (stable_sort (ascending selector) xs)"
proof (rule sorted_stable_sort [where S = "set xs"])
  from comparable_cases [OF assms]
  have cases: "(\<forall>x\<in>set xs. \<exists>n. selector x = JNum n) \<or> (\<forall>x\<in>set xs. \<exists>s. selector x = JStr s)" .
  show "set xs \<subseteq> set xs" by simp
  show "(0 < ascending selector a b) = (\<not> js_lte (selector a) (selector b))"
    if "a \<in> set xs" "b \<in> set xs" for a b
  proof -
    from cases that have "(\<exists>m n. selector a = JNum m \<and> selector b = JNum n)
        \<or> (\<exists>s t. selector a = JStr s \<and> selector b = JStr t)"
      by (rule comparable_pair)
    then show ?thesis
      by (auto simp: ascending_def Let_def js_gt_def js_lt_def js_lte_def js_less_num js_less_str)
  qed
  show "js_lte (selector a) (selector b) \<or> js_lte (selector b) (selector a)"
    if "a \<in> set xs" "b \<in> set xs" for a b
  proof -
    from cases that have "(\<exists>m n. selector a = JNum m \<and> selector b = JNum n)
        \<or> (\<exists>s t. selector a = JStr s \<and> selector b = JStr t)"
      by (rule comparable_pair)
    then show ?thesis by (auto simp: js_lte_def js_less_num js_less_str)
  qed
  show "js_lte (selector a) (selector c)"
    if "a \<in> set xs" "b \<in> set xs" "c \<in> set xs"
      "js_lte (selector a) (selector b)" "js_lte (selector b) (selector c)" for a b c
  proof -
    from cases that(1-3)
    have "(\<exists>l m n. selector a = JNum l \<and> selector b = JNum m \<and> selector c = JNum n)
       \<or> (\<exists>s t u. selector a = JStr s \<and> selector b = JStr t \<and> selector c = JStr u)"
      by (rule comparable_triple)
    with that(4,5) show ?thesis by (auto simp: js_lte_def js_less_num js_less_str)
  qed
qed

lemma stable_sort_descending:
  assumes "comparable_keys (map selector xs)"
  shows "sorted_wrt (\<lambda>a b. js_gte (selector a) (selector b)) (stable_sort (descending selector) xs)"
proof (rule sorted_stable_sort [where S = "set xs"])
  from comparable_cases [OF assms]
  have cases: "(\<forall>x\<in>set xs. \<exists>n. selector x = JNum n) \<or> (\<forall>x\<in>set xs. \<exists>s. selector x = JStr s)" .
  show "set xs \<subseteq> set xs" by simp
  show "(0 < descending selector a b) = (\<not> js_gte (selector a) (selector b))"
    if "a \<in> set xs" "b \<in> set xs" for a b
  proof -
    from cases that have "(\<exists>m n. selector a = JNum m \<and> selector b = JNum n)
        \<or> (\<exists>s t. selector a = JStr s \<and> selector b = JStr t)"
      by (rule comparable_pair)
    then show ?thesis
      by (auto simp: descending_def Let_def js_gt_def js_lt_def js_gte_def js_less_num js_less_str)
  qed
  show "js_gte (selector a) (selector b) \<or> js_gte (selector b) (selector a)"
    if "a \<in> set xs" "b \<in> set xs" for a b
  proof -
    from cases that have "(\<exists>m n. selector a = JNum m \<and> selector b = JNum n)
        \<or> (\<exists>s t. selector a = JStr s \<and> selector b = JStr t)"
      by (rule comparable_pair)
    then show ?thesis by (auto simp: js_gte_def js_less_num js_less_str)
  qed
  show "js_gte (selector a) (selector c)"
    if "a \<in> set xs" "b \<in> set xs" "c \<in> set xs"
      "js_gte (selector a) (selector b)" "js_gte (selector b) (selector c)" for a b c
  proof -
    from cases that(1-3)
    have "(\<exists>l m n. selector a = JNum l \<and> selector b = JNum m \<and> selector c = JNum n)
       \<or> (\<exists>s t u. selector a = JStr s \<and> selector b = JStr t \<and> selector c = JStr u)"
      by (rule comparable_triple)
    with that(4,5) show ?thesis by (auto simp: js_gte_def js_less_num js_less_str)
  qed
qed

lemma stable_sort_ascending_ties:
  "filter (\<lambda>x. selector x = k) (stable_sort (ascending selector) xs) = filter (\<lambda>x. selector x = k) xs"
proof (rule stable_stable_sort [where f = selector and c = k])
  fix a b assume "0 < ascending selector a b"
  then have "js_gt (selector a) (selector b)"
    by (simp add: ascending_def Let_def split: if_splits)
  then show "selector a \<noteq> selector b" using js_less_irrefl by (auto simp: js_gt_def)
qed

lemma stable_sort_descending_ties:
  "filter (\<lambda>x. selector x = k) (stable_sort (descending selector) xs) = filter (\<lambda>x. selector x = k) xs"
proof (rule stable_stable_sort [where f = selector and c = k])
  fix a b assume "0 < descending selector a b"
  then have "js_lt (selector a) (selector b)"
    by (simp add: descending_def Let_def split: if_splits)
  then show "selector a \<noteq> selector b" using js_less_irrefl by (auto simp: js_lt_def)
qed

lemma defined_idem: "defined (defined xs) = defined xs" "undefineds (defined xs) = []"
  by (simp_all add: defined_def undefineds_def)

lemma mset_defined: "mset (defined xs) + mset (undefineds xs) = mset xs"
  by (induction xs) (auto simp: defined_def undefineds_def)

lemma js_sort_parts: "js_sort cmp xs = stable_sort cmp (defined xs) @ undefineds xs"
  by (simp add: js_sort_def defined_def undefineds_def)

lemma no_undefined: "JUndefined \<notin> set xs \<Longrightarrow> defined xs = xs \<and> undefineds xs = []"
  by (induction xs) (auto simp: defined_def undefineds_def)

text \<open>
  C9, as the code has it. Let the keys of the elements other than \<^verbatim>\<open>undefined\<close> be
  comparable (all numbers or all strings). Then \<^verbatim>\<open>orderBy\<close> returns those elements sorted
  ascending by the selected key and \<^verbatim>\<open>orderByDescending\<close> sorted descending, both stable
  (the elements with any one key keep their original relative order), followed by the
  \<^verbatim>\<open>undefined\<close> elements of the input; the result is a rearrangement of the input. A
  sequence without \<^verbatim>\<open>undefined\<close> elements is sorted and stable as a whole.
\<close>

theorem orderBy_sorted_stable:
  assumes "comparable_keys (map selector (defined data))"
  shows "orderBy selector data = orderBy selector (defined data) @ undefineds data
    \<and> orderByDescending selector data = orderByDescending selector (defined data) @ undefineds data
    \<and> sorted_wrt (\<lambda>a b. js_lte (selector a) (selector b)) (orderBy selector (defined data))
    \<and> sorted_wrt (\<lambda>a b. js_gte (selector a) (selector b)) (orderByDescending selector (defined data))
    \<and> filter (\<lambda>x. selector x = k) (orderBy selector (defined data))
        = filter (\<lambda>x. selector x = k) (defined data)
    \<and> filter (\<lambda>x. selector x = k) (orderByDescending selector (defined data))
        = filter (\<lambda>x. selector x = k) (defined data)
    \<and> mset (orderBy selector data) = mset data
    \<and> mset (orderByDescending selector data) = mset data
    \<and> (JUndefined \<notin> set data \<longrightarrow>
         sorted_wrt (\<lambda>a b. js_lte (selector a) (selector b)) (orderBy selector data)
         \<and> sorted_wrt (\<lambda>a b. js_gte (selector a) (selector b)) (orderByDescending selector data)
         \<and> filter (\<lambda>x. selector x = k) (orderBy selector data) = filter (\<lambda>x. selector x = k) data
         \<and> filter (\<lambda>x. selector x = k) (orderByDescending selector data)
             = filter (\<lambda>x. selector x = k) data)"
proof -
  have asc: "orderBy selector (defined data) = stable_sort (ascending selector) (defined data)"
    by (simp add: orderBy_def js_sort_parts defined_idem)
  have desc: "orderByDescending selector (defined data)
      = stable_sort (descending selector) (defined data)"
    by (simp add: orderByDescending_def js_sort_parts defined_idem)
  have p1: "orderBy selector data = orderBy selector (defined data) @ undefineds data"
    by (simp add: asc) (simp add: orderBy_def js_sort_parts)
  have p2: "orderByDescending selector data
      = orderByDescending selector (defined data) @ undefineds data"
    by (simp add: desc) (simp add: orderByDescending_def js_sort_parts)
  have s1: "sorted_wrt (\<lambda>a b. js_lte (selector a) (selector b)) (orderBy selector (defined data))"
    unfolding asc by (rule stable_sort_ascending [OF assms])
  have s2: "sorted_wrt (\<lambda>a b. js_gte (selector a) (selector b))
      (orderByDescending selector (defined data))"
    unfolding desc by (rule stable_sort_descending [OF assms])
  have t1: "filter (\<lambda>x. selector x = k) (orderBy selector (defined data))
        = filter (\<lambda>x. selector x = k) (defined data)"
    unfolding asc by (rule stable_sort_ascending_ties)
  have t2: "filter (\<lambda>x. selector x = k) (orderByDescending selector (defined data))
        = filter (\<lambda>x. selector x = k) (defined data)"
    unfolding desc by (rule stable_sort_descending_ties)
  have m1: "mset (orderBy selector data) = mset data"
    by (simp add: orderBy_def js_sort_parts mset_stable_sort mset_defined)
  have m2: "mset (orderByDescending selector data) = mset data"
    by (simp add: orderByDescending_def js_sort_parts mset_stable_sort mset_defined)
  have w: "sorted_wrt (\<lambda>a b. js_lte (selector a) (selector b)) (orderBy selector data)
         \<and> sorted_wrt (\<lambda>a b. js_gte (selector a) (selector b)) (orderByDescending selector data)
         \<and> filter (\<lambda>x. selector x = k) (orderBy selector data) = filter (\<lambda>x. selector x = k) data
         \<and> filter (\<lambda>x. selector x = k) (orderByDescending selector data)
             = filter (\<lambda>x. selector x = k) data"
    if "JUndefined \<notin> set data"
  proof -
    from no_undefined [OF that] have "defined data = data" by simp
    with s1 s2 t1 t2 show ?thesis by simp
  qed
  from p1 p2 s1 s2 t1 t2 m1 m2 w show ?thesis by blast
qed

theorem orderBy_sorted_stable_witness:
  "comparable_keys (map age_of (defined staff))
   \<and> list_all (\<lambda>x. x \<noteq> JUndefined) staff
   \<and> map age_of (orderBy age_of staff) = [JNum 22, JNum 28, JNum 28, JNum 35, JNum 40]
   \<and> filter (\<lambda>x. age_of x = JNum 28) (orderBy age_of staff) =
       [employee ''Alice'' ''London'' ''IT'' 28, employee ''Eve'' ''Rome'' ''IT'' 28]
   \<and> filter (\<lambda>x. age_of x = JNum 28) (orderByDescending age_of staff) =
       [employee ''Alice'' ''London'' ''IT'' 28, employee ''Eve'' ''Rome'' ''IT'' 28]"
proof -
  have d: "defined staff = staff"
    by (simp add: defined_def staff_def employees_def employee_def)
  have u: "JUndefined \<notin> set staff"
    by (simp add: staff_def employees_def employee_def)
  have h: "comparable_keys (map age_of (defined staff))"
    by (simp add: d) (simp add: comparable_keys_def staff_def employees_def employee_def age_of_def obj_get_def)
  have f: "filter (\<lambda>x. age_of x = JNum 28) staff =
       [employee ''Alice'' ''London'' ''IT'' 28, employee ''Eve'' ''Rome'' ''IT'' 28]"
    by (simp add: staff_def employees_def employee_def age_of_def obj_get_def)
  have o: "map age_of (orderBy age_of staff) = [JNum 22, JNum 28, JNum 28, JNum 35, JNum 40]"
    by (simp add: orderBy_def js_sort_def stable_sort_def ascending_def staff_def employees_def
        employee_def age_of_def obj_get_def js_gt_def js_lt_def js_less_def)
  from orderBy_sorted_stable [OF h, of "JNum 28"] u
  have "filter (\<lambda>x. age_of x = JNum 28) (orderBy age_of staff) = filter (\<lambda>x. age_of x = JNum 28) staff
      \<and> filter (\<lambda>x. age_of x = JNum 28) (orderByDescending age_of staff)
          = filter (\<lambda>x. age_of x = JNum 28) staff"
    by blast
  moreover from u have "list_all (\<lambda>x. x \<noteq> JUndefined) staff"
    by (auto simp: list_all_iff)
  ultimately show ?thesis using h f o by simp
qed

text \<open>
  C9 as stated fails on a sequence with an \<^verbatim>\<open>undefined\<close> element: the sort puts it last
  without asking the comparator. With the selector \<^verbatim>\<open>x => x === undefined ? 0 : x\<close> the
  sequence undefined, 5, 7 has the keys 0, 5, 7 and is returned as 5, 7, undefined, with
  the keys 5, 7, 0: not ascending.
\<close>

theorem orderBy_undefined_last:
  "orderBy value_or_zero [JUndefined, JNum 5, JNum 7] = [JNum 5, JNum 7, JUndefined]
   \<and> map value_or_zero [JNum 5, JNum 7, JUndefined] = [JNum 5, JNum 7, JNum 0]
   \<and> comparable_keys (map value_or_zero [JUndefined, JNum 5, JNum 7])
   \<and> \<not> js_lte (JNum 7) (JNum 0)"
  by (simp add: orderBy_def js_sort_def stable_sort_def ascending_def value_or_zero_def
      comparable_keys_def js_gt_def js_lt_def js_lte_def js_less_def)

end
